theory Spec2Isabelle
  imports Main "HOL-Library.Sublist" "HOL-Library.AList"
begin

section \<open>Strings as Python sees them\<close>

text \<open>
  A Python \<open>str\<close> is modelled as a \<open>string\<close> whose characters are the code points
  U+0000 .. U+00FF.  On that range \<open>str.isspace\<close>, \<open>str.strip\<close> and the pattern
  \<open>\s\<close> agree on the characters 9-13, 28-31, 32, 133 and 160; \<open>\d\<close> is \<open>0-9\<close>.
\<close>

definition code :: "char \<Rightarrow> nat" where
  "code c = of_char c"

definition is_space :: "char \<Rightarrow> bool" where
  "is_space c = (let n = code c in
     (9 \<le> n \<and> n \<le> 13) \<or> (28 \<le> n \<and> n \<le> 32) \<or> n = 133 \<or> n = 160)"

definition is_digit :: "char \<Rightarrow> bool" where
  "is_digit c = (let n = code c in 48 \<le> n \<and> n \<le> 57)"

definition is_hex :: "char \<Rightarrow> bool" where
  "is_hex c = (let n = code c in
     (48 \<le> n \<and> n \<le> 57) \<or> (97 \<le> n \<and> n \<le> 102) \<or> (65 \<le> n \<and> n \<le> 70))"

text \<open>The class \<open>[a-zA-Z0-9_]\<close>.\<close>

definition is_word :: "char \<Rightarrow> bool" where
  "is_word c = (let n = code c in
     (97 \<le> n \<and> n \<le> 122) \<or> (65 \<le> n \<and> n \<le> 90) \<or> (48 \<le> n \<and> n \<le> 57) \<or> n = 95)"

text \<open>The class \<open>[a-zA-Z0-9_ ]\<close>.\<close>

definition is_word_sp :: "char \<Rightarrow> bool" where
  "is_word_sp c = (is_word c \<or> c = CHR '' '')"

text \<open>The class \<open>[^:]\<close>.\<close>

definition not_colon :: "char \<Rightarrow> bool" where
  "not_colon c = (c \<noteq> CHR '':'')"

text \<open>The pattern \<open>.\<close>: every character but the line feed.\<close>

definition any_char :: "char \<Rightarrow> bool" where
  "any_char c = (code c \<noteq> 10)"

text \<open>\<open>s.strip()\<close>\<close>

definition strip :: "string \<Rightarrow> string" where
  "strip s = rev (dropWhile is_space (rev (dropWhile is_space s)))"

text \<open>\<open>s.startswith(p)\<close> and \<open>s.endswith(p)\<close>\<close>

definition startswith :: "string \<Rightarrow> string \<Rightarrow> bool" where
  "startswith s p = prefix p s"

definition endswith :: "string \<Rightarrow> string \<Rightarrow> bool" where
  "endswith s p = prefix (rev p) (rev s)"

text \<open>\<open>p in s\<close> for strings: \<open>p\<close> occurs in \<open>s\<close> as a contiguous run.\<close>

fun contains :: "string \<Rightarrow> string \<Rightarrow> bool" where
  "contains [] p = (p = [])"
| "contains (c # cs) p = (prefix p (c # cs) \<or> contains cs p)"

text \<open>
  \<open>s.replace(p, "")\<close> for a non-empty \<open>p\<close>: the occurrences of \<open>p\<close> are removed from
  left to right, without overlap.  The counter is the number of characters of the
  occurrence being removed that are still to be skipped.
\<close>

fun remove_from :: "string \<Rightarrow> nat \<Rightarrow> string \<Rightarrow> string" where
  "remove_from p k [] = []"
| "remove_from p (Suc k) (c # cs) = remove_from p k cs"
| "remove_from p 0 (c # cs) =
     (if prefix p (c # cs) then remove_from p (length p - 1) cs
      else c # remove_from p 0 cs)"

definition remove_all :: "string \<Rightarrow> string \<Rightarrow> string" where
  "remove_all s p = remove_from p 0 s"

text \<open>\<open>s.replace(' ', '_')\<close>\<close>

definition spaces_to_underscores :: "string \<Rightarrow> string" where
  "spaces_to_underscores s = map (\<lambda>c. if c = CHR '' '' then CHR ''_'' else c) s"

text \<open>
  \<open>s.rsplit('_', 1)\<close>: the text before and after the last underscore, or \<open>None\<close> when
  there is no underscore (the result then has one element, and reading element 1 of it
  raises \<open>IndexError\<close>).
\<close>

definition rsplit_underscore :: "string \<Rightarrow> (string \<times> string) option" where
  "rsplit_underscore s =
     (let tail_rev = takeWhile (\<lambda>c. c \<noteq> CHR ''_'') (rev s);
          rest = dropWhile (\<lambda>c. c \<noteq> CHR ''_'') (rev s)
      in case rest of [] \<Rightarrow> None | _ # head_rev \<Rightarrow> Some (rev head_rev, rev tail_rev))"

section \<open>Regular expressions with backtracking\<close>

text \<open>
  The three patterns of the program use literals, character classes repeated greedily
  or lazily, sequence, alternation, an optional group and capture groups.  \<open>rx_run\<close>
  lists every way a pattern can match at the start of the text, in the order in which a
  backtracking matcher tries them: a greedy repetition from the longest run to the
  shortest, a lazy one from the shortest to the longest, the left alternative before the
  right one, an optional part present before absent.  Each way is the text left over and
  the groups captured.  Python's \<open>re\<close> returns the first way.

  \<open>Lit l\<close> is the text \<open>l\<close> itself.  \<open>Rep greedy mn p\<close> is a run of at least \<open>mn\<close>
  characters of the class \<open>p\<close>, greedy or lazy: \<open>\s*\<close> is \<open>Rep True 0 is_space\<close>,
  \<open>[0-9]+\<close> is \<open>Rep True 1 is_digit\<close> and \<open>.*?\<close> is \<open>Rep False 0 any_char\<close>.
  \<open>Opt a\<close> is \<open>(?:a)?\<close> and \<open>Grp i a\<close> is the capture group number \<open>i\<close>.
\<close>

datatype rx =
    Lit string
  | Rep bool nat "char \<Rightarrow> bool"
  | Seq rx rx
  | Alt rx rx
  | Opt rx
  | Grp nat rx

type_synonym caps = "nat \<Rightarrow> string option"

text \<open>The texts left after a run of 0, 1, 2, ... characters of the class.\<close>

fun rep_rests :: "(char \<Rightarrow> bool) \<Rightarrow> string \<Rightarrow> string list" where
  "rep_rests p [] = [[]]"
| "rep_rests p (c # cs) = (c # cs) # (if p c then rep_rests p cs else [])"

primrec rx_run :: "rx \<Rightarrow> string \<times> caps \<Rightarrow> (string \<times> caps) list" where
  "rx_run (Lit l) sc =
     (if prefix l (fst sc) then [(drop (length l) (fst sc), snd sc)] else [])"
| "rx_run (Rep greedy mn p) sc =
     (let rests = drop mn (rep_rests p (fst sc))
      in map (\<lambda>r. (r, snd sc)) (if greedy then rev rests else rests))"
| "rx_run (Seq a b) sc = concat (map (rx_run b) (rx_run a sc))"
| "rx_run (Alt a b) sc = rx_run a sc @ rx_run b sc"
| "rx_run (Opt a) sc = rx_run a sc @ [sc]"
| "rx_run (Grp i a) sc =
     map (\<lambda>rc. (fst rc, (snd rc)(i \<mapsto> take (length (fst sc) - length (fst rc)) (fst sc))))
       (rx_run a sc)"

text \<open>\<open>pattern.match(s)\<close>: the groups of the first way to match at the start of \<open>s\<close>.\<close>

definition rx_match :: "rx \<Rightarrow> string \<Rightarrow> caps option" where
  "rx_match r s = (case rx_run r (s, \<lambda>_. None) of [] \<Rightarrow> None | rc # _ \<Rightarrow> Some (snd rc))"

text \<open>\<open>pattern.search(s)\<close>: the first match at the leftmost position that has one.\<close>

fun rx_search :: "rx \<Rightarrow> string \<Rightarrow> caps option" where
  "rx_search r [] = rx_match r []"
| "rx_search r (c # cs) =
     (case rx_match r (c # cs) of Some m \<Rightarrow> Some m | None \<Rightarrow> rx_search r cs)"

fun seqs :: "rx list \<Rightarrow> rx" where
  "seqs [] = Lit []"
| "seqs [r] = r"
| "seqs (r # rs) = Seq r (seqs rs)"

abbreviation ws_star :: rx where "ws_star \<equiv> Rep True 0 is_space"
abbreviation ws_plus :: rx where "ws_plus \<equiv> Rep True 1 is_space"

text \<open>
  \<^verbatim>\<open>^#define\s+([a-zA-Z0-9_]+)\s+((?:0x[0-9a-fA-F]+)|[0-9]+)\s*(?:/\*\s*(.*?)\s*\*/)?\<close>
\<close>

definition DEFINE_RE :: rx where
  "DEFINE_RE = seqs
     [Lit ''#define'', ws_plus, Grp 1 (Rep True 1 is_word), ws_plus,
      Grp 2 (Alt (Seq (Lit ''0x'') (Rep True 1 is_hex)) (Rep True 1 is_digit)),
      ws_star,
      Opt (seqs [Lit ''/*'', ws_star, Grp 3 (Rep False 0 any_char), ws_star, Lit ''*/''])]"

text \<open>
  \<^verbatim>\<open>/\*\s*([a-zA-Z0-9_]+)\s*::\s*([a-zA-Z0-9_ ]+)\s*::\s*(.*?)\s*\[(\d+):(\d+)\]\s*\*/\<close>
\<close>

definition FIELD_COMMENT_RE :: rx where
  "FIELD_COMMENT_RE = seqs
     [Lit ''/*'', ws_star, Grp 1 (Rep True 1 is_word), ws_star, Lit ''::'', ws_star,
      Grp 2 (Rep True 1 is_word_sp), ws_star, Lit ''::'', ws_star,
      Grp 3 (Rep False 0 any_char), ws_star,
      Lit ''['', Grp 4 (Rep True 1 is_digit), Lit '':'', Grp 5 (Rep True 1 is_digit), Lit '']'',
      ws_star, Lit ''*/'']"

text \<open>
  \<^verbatim>\<open>/\*\s*([a-zA-Z0-9_]+)\s*::\s*([^:]+?)\s*\*/\<close>
\<close>

definition REGISTER_COMMENT_RE :: rx where
  "REGISTER_COMMENT_RE = seqs
     [Lit ''/*'', ws_star, Grp 1 (Rep True 1 is_word), ws_star, Lit ''::'', ws_star,
      Grp 2 (Rep False 1 not_colon), ws_star, Lit ''*/'']"

text \<open>The group numbers of a pattern.\<close>

primrec groups_of :: "rx \<Rightarrow> nat set" where
  "groups_of (Lit l) = {}"
| "groups_of (Rep g mn p) = {}"
| "groups_of (Seq a b) = groups_of a \<union> groups_of b"
| "groups_of (Alt a b) = groups_of a \<union> groups_of b"
| "groups_of (Opt a) = groups_of a"
| "groups_of (Grp i a) = insert i (groups_of a)"

text \<open>The groups that take part in every match of a pattern.\<close>

primrec sure_groups :: "rx \<Rightarrow> nat set" where
  "sure_groups (Lit l) = {}"
| "sure_groups (Rep g mn p) = {}"
| "sure_groups (Seq a b) = sure_groups a \<union> sure_groups b"
| "sure_groups (Alt a b) = sure_groups a \<inter> sure_groups b"
| "sure_groups (Opt a) = {}"
| "sure_groups (Grp i a) = insert i (sure_groups a)"

section \<open>Reading integers\<close>

datatype error = ValueError | IndexError

definition digit_val :: "char \<Rightarrow> int" where
  "digit_val c = (let n = int (code c) in
     if 48 \<le> n \<and> n \<le> 57 then n - 48
     else if 97 \<le> n \<and> n \<le> 102 then n - 87
     else n - 55)"

definition digits_to_int :: "int \<Rightarrow> string \<Rightarrow> int" where
  "digits_to_int b s = foldl (\<lambda>a c. a * b + digit_val c) 0 s"

text \<open>
  Group 2 of \<open>DEFINE_RE\<close> is \<open>0x\<close> followed by hexadecimal digits, or a run of decimal
  digits; the two functions below read these two shapes and answer \<open>ValueError\<close>
  for every other text.

  \<open>int(s, 0)\<close>: the prefix \<open>0x\<close> selects base 16.  A decimal literal with a leading zero
  is refused unless its value is zero, and CPython refuses a decimal literal of more than
  4300 digits (the default of \<open>sys.set_int_max_str_digits\<close>).
\<close>

definition max_str_digits :: nat where
  "max_str_digits = 4300"

definition int_base0 :: "string \<Rightarrow> error + int" where
  "int_base0 s =
     (if startswith s ''0x'' \<and> drop 2 s \<noteq> [] \<and> list_all is_hex (drop 2 s)
      then Inr (digits_to_int 16 (drop 2 s))
      else if s \<noteq> [] \<and> list_all is_digit s
      then (if max_str_digits < length s then Inl ValueError
            else if startswith s ''0'' \<and> digits_to_int 10 s \<noteq> 0 then Inl ValueError
            else Inr (digits_to_int 10 s))
      else Inl ValueError)"

text \<open>\<open>int(s, 16)\<close>: hexadecimal digits, with or without the prefix \<open>0x\<close>.\<close>

definition int_base16 :: "string \<Rightarrow> error + int" where
  "int_base16 s =
     (let ds = (if startswith s ''0x'' then drop 2 s else s)
      in if ds \<noteq> [] \<and> list_all is_hex ds then Inr (digits_to_int 16 ds)
         else Inl ValueError)"

section \<open>The data model\<close>

datatype Field = Field
  (f_name: string) (f_description: string) (bit_offset: int) (bit_width: int)

datatype Register = Register
  (r_name: string) (r_description: string) (address_offset: int) (r_size: int)
  (r_fields: "Field list")

datatype Peripheral = Peripheral
  (p_name: string) (base_address: int) (p_description: string)
  (registers: "(string \<times> Register) list")

datatype Device = Device
  (d_name: string) (d_description: string) (peripherals: "(string \<times> Peripheral) list")

datatype RegAddrDesc = RegAddrDesc (rad_addr: int) (rad_desc: string)

datatype RegisterInfo = RegisterInfo
  (reg_name: string) (addr: int) (desc: string) (reg_define: string)

text \<open>
  A Python \<open>dict\<close> keeps its keys in the order of their first insertion, and a store
  under a key that is present replaces the value in place.  A \<open>dict\<close> is thus a list of
  pairs with \<open>map_of\<close> for reading and \<open>AList.update\<close> for \<open>d[k] = v\<close>.

  The inner dictionaries of \<open>fields_info\<close> only ever hold the keys \<open>'bitOffset'\<close> and
  \<open>'bitWidth'\<close>.
\<close>

datatype Props = Props (bitOffset: "int option") (bitWidth: "int option")

record ParsedHeader =
  registers_info :: "(string \<times> RegAddrDesc) list"
  fields_info :: "(string \<times> Props) list"
  field_descriptions :: "(string \<times> string) list"
  reg_fqn_to_periph :: "(string \<times> string) list"
  reg_fqn_to_regname :: "(string \<times> string) list"

text \<open>
  The state of the loop of \<open>parse_header_lines\<close>: the five tables and
  \<open>last_field_info\<close>, which is \<open>None\<close> or the pair of \<open>'key_base'\<close> and \<open>'desc'\<close>.
\<close>

record parse_state = ParsedHeader +
  last_field_info :: "(string \<times> string) option"

definition init_state :: parse_state where
  "init_state = \<lparr>registers_info = [], fields_info = [], field_descriptions = [],
     reg_fqn_to_periph = [], reg_fqn_to_regname = [], last_field_info = None\<rparr>"

section \<open>parse_header_lines\<close>

text \<open>The groups of a match, as \<open>m.groups()\<close> returns them.\<close>

definition define_groups :: "string \<Rightarrow> (string \<times> string \<times> string option) option" where
  "define_groups line =
     (case rx_match DEFINE_RE line of None \<Rightarrow> None
      | Some c \<Rightarrow> (case (c 1, c 2) of (Some name, Some value_str) \<Rightarrow> Some (name, value_str, c 3)
                   | _ \<Rightarrow> None))"

definition field_comment_groups :: "string \<Rightarrow> (string \<times> string \<times> string) option" where
  "field_comment_groups line =
     (case rx_search FIELD_COMMENT_RE line of None \<Rightarrow> None
      | Some c \<Rightarrow> (case (c 1, c 2, c 3) of (Some p, Some r, Some d) \<Rightarrow> Some (p, r, d)
                   | _ \<Rightarrow> None))"

definition register_comment_groups :: "string \<Rightarrow> (string \<times> string) option" where
  "register_comment_groups line =
     (case rx_search REGISTER_COMMENT_RE line of None \<Rightarrow> None
      | Some c \<Rightarrow> (case (c 1, c 2) of (Some p, Some r) \<Rightarrow> Some (p, r) | _ \<Rightarrow> None))"

text \<open>Lines 139-144: the classification of a define.\<close>

definition is_field_prop :: "string \<Rightarrow> string option \<Rightarrow> bool" where
  "is_field_prop name comment =
     (if endswith name ''_BITS'' \<or> endswith name ''_SHIFT'' \<or> endswith name ''_ALIGN''
      then True
      else if endswith name ''_MASK''
      then (case comment of None \<Rightarrow> True
            | Some c \<Rightarrow> c = [] \<or> \<not> contains c ''Register'')
      else False)"

text \<open>\<open>fields_info[pfx]['bitOffset'] = v\<close> on a \<open>defaultdict(dict)\<close>, and the same for the width.\<close>

definition props_of :: "(string \<times> Props) list \<Rightarrow> string \<Rightarrow> Props" where
  "props_of fi pfx = (case map_of fi pfx of None \<Rightarrow> Props None None | Some p \<Rightarrow> p)"

definition set_bitOffset :: "(string \<times> Props) list \<Rightarrow> string \<Rightarrow> int \<Rightarrow> (string \<times> Props) list" where
  "set_bitOffset fi pfx v = AList.update pfx (Props (Some v) (bitWidth (props_of fi pfx))) fi"

definition set_bitWidth :: "(string \<times> Props) list \<Rightarrow> string \<Rightarrow> int \<Rightarrow> (string \<times> Props) list" where
  "set_bitWidth fi pfx v = AList.update pfx (Props (bitOffset (props_of fi pfx)) (Some v)) fi"

text \<open>Lines 156-159: a pending description whose key base starts the prefix is consumed.\<close>

definition consume_description :: "parse_state \<Rightarrow> string \<Rightarrow> parse_state" where
  "consume_description st pfx =
     (case last_field_info st of
        None \<Rightarrow> st
      | Some (key_base, d) \<Rightarrow>
          if startswith pfx key_base
          then (if map_of (field_descriptions st) pfx = None
                then st\<lparr>field_descriptions := AList.update pfx d (field_descriptions st)\<rparr>
                else st)\<lparr>last_field_info := None\<rparr>
          else st)"

text \<open>Lines 139-163, for the groups \<open>name\<close>, \<open>value_str\<close> and \<open>comment\<close> of a define.\<close>

definition process_define ::
  "parse_state \<Rightarrow> string \<Rightarrow> string \<Rightarrow> string option \<Rightarrow> error + parse_state" where
  "process_define st name value_str comment =
     (if is_field_prop name comment then
        (case rsplit_underscore name of
           None \<Rightarrow> Inl IndexError
         | Some (pfx, prop) \<Rightarrow>
             (case int_base0 value_str of
                Inl e \<Rightarrow> Inl e
              | Inr v \<Rightarrow>
                  Inr (consume_description
                    (if prop = ''SHIFT''
                     then st\<lparr>fields_info := set_bitOffset (fields_info st) pfx v\<rparr>
                     else if prop = ''BITS''
                     then st\<lparr>fields_info := set_bitWidth (fields_info st) pfx v\<rparr>
                     else st) pfx)))
      else if startswith value_str ''0x'' then
        (case int_base16 value_str of
           Inl e \<Rightarrow> Inl e
         | Inr v \<Rightarrow>
             Inr (st\<lparr>registers_info :=
               AList.update name
                 (RegAddrDesc v
                    (case comment of None \<Rightarrow> name
                     | Some c \<Rightarrow> if c = [] then name else strip (remove_all c ''Register'')))
                 (registers_info st)\<rparr>))
      else Inr st)"

definition handle_define :: "parse_state \<Rightarrow> string \<Rightarrow> error + parse_state" where
  "handle_define st line =
     (case define_groups line of
        None \<Rightarrow> Inr st
      | Some (name, value_str, comment) \<Rightarrow> process_define st name value_str comment)"

text \<open>Lines 182-187: the first comment that names a register records its peripheral and name.\<close>

definition record_fqn :: "parse_state \<Rightarrow> string \<Rightarrow> string \<Rightarrow> parse_state" where
  "record_fqn st periph_name reg_name_from_comment =
     (if periph_name \<noteq> [] \<and> reg_name_from_comment \<noteq> []
         \<and> \<not> contains reg_name_from_comment ''::''
      then (let rn = spaces_to_underscores (strip reg_name_from_comment);
                reg_fqn = periph_name @ ''_'' @ rn
            in if map_of (reg_fqn_to_periph st) reg_fqn = None
               then st\<lparr>reg_fqn_to_periph := AList.update reg_fqn periph_name (reg_fqn_to_periph st),
                       reg_fqn_to_regname := AList.update reg_fqn rn (reg_fqn_to_regname st)\<rparr>
               else st)
      else st)"

text \<open>Lines 166-187.\<close>

definition handle_comment :: "parse_state \<Rightarrow> string \<Rightarrow> parse_state" where
  "handle_comment st line =
     (case field_comment_groups line of
        Some (periph_name, reg_name_from_comment, d) \<Rightarrow>
          record_fqn
            (st\<lparr>last_field_info :=
               Some (periph_name @ ''_'' @ spaces_to_underscores reg_name_from_comment, strip d)\<rparr>)
            periph_name reg_name_from_comment
      | None \<Rightarrow>
          (case register_comment_groups line of
             Some (periph_name, reg_name_from_comment) \<Rightarrow>
               record_fqn st periph_name reg_name_from_comment
           | None \<Rightarrow> st))"

text \<open>One turn of the loop, lines 124-187.\<close>

definition parse_line :: "parse_state \<Rightarrow> string \<Rightarrow> error + parse_state" where
  "parse_line st raw =
     (let line = strip raw;
          st0 = (if \<not> (startswith line ''#define'' \<or> startswith line ''/*'' \<or> line = [])
                 then st\<lparr>last_field_info := None\<rparr> else st)
      in case handle_define st0 line of
           Inl e \<Rightarrow> Inl e
         | Inr st1 \<Rightarrow> Inr (handle_comment st1 line))"

fun parse_lines :: "parse_state \<Rightarrow> string list \<Rightarrow> error + parse_state" where
  "parse_lines st [] = Inr st"
| "parse_lines st (l # ls) =
     (case parse_line st l of Inl e \<Rightarrow> Inl e | Inr st' \<Rightarrow> parse_lines st' ls)"

definition parse_header_lines :: "string list \<Rightarrow> error + ParsedHeader" where
  "parse_header_lines ls =
     (case parse_lines init_state ls of
        Inl e \<Rightarrow> Inl e
      | Inr st \<Rightarrow> Inr (ParsedHeader.truncate st))"

section \<open>group_registers_by_peripheral\<close>

text \<open>Python's truth value of a \<open>str | None\<close>.\<close>

definition truthy :: "string option \<Rightarrow> bool" where
  "truthy x = (case x of None \<Rightarrow> False | Some s \<Rightarrow> s \<noteq> [])"

text \<open>
  \<open>sorted(d.keys(), key=len, reverse=True)\<close>, each key with its value \<open>d[key]\<close>: the
  entries by falling length of the key, entries of equal length in the order of the
  dictionary (the sort is stable, also under \<open>reverse=True\<close>).
\<close>

definition longest_first :: "(string \<times> string) list \<Rightarrow> (string \<times> string) list" where
  "longest_first d = sort_key (\<lambda>kv. - int (length (fst kv))) d"

text \<open>Lines 219-229: the peripheral name and the register name found for a define.\<close>

definition resolve_register ::
  "(string \<times> string) list \<Rightarrow> (string \<times> string) list \<Rightarrow> string
     \<Rightarrow> string option \<times> string option" where
  "resolve_register p2p p2r rd =
     (let periph_name = map_of p2p rd;
          rn = map_of p2r rd
      in if \<not> truthy periph_name then
           (case find (\<lambda>kv. startswith rd (fst kv)) (longest_first p2p) of
              Some kv \<Rightarrow> (Some (snd kv), Some (drop (length (snd kv) + 1) rd))
            | None \<Rightarrow> (periph_name, rn))
         else (periph_name, rn))"

definition warning :: "string \<Rightarrow> string" where
  "warning rd = ''Warning: Could not determine peripheral for register '' @ rd"

text \<open>
  One turn of the loop, lines 218-234.  The state is the \<open>defaultdict(list)\<close> of the
  peripherals and the lines written to the error stream so far.
\<close>

definition group_step ::
  "(string \<times> string) list \<Rightarrow> (string \<times> string) list
     \<Rightarrow> (string \<times> RegisterInfo list) list \<times> string list \<Rightarrow> string \<times> RegAddrDesc
     \<Rightarrow> (string \<times> RegisterInfo list) list \<times> string list" where
  "group_step p2p p2r acc entry =
     (case resolve_register p2p p2r (fst entry) of
        (Some pn, Some rn) \<Rightarrow>
          if pn \<noteq> [] \<and> rn \<noteq> [] then
            (AList.update pn
               ((case map_of (fst acc) pn of None \<Rightarrow> [] | Some rs \<Rightarrow> rs)
                @ [RegisterInfo rn (rad_addr (snd entry))
                     (if rad_desc (snd entry) = [] then rn else rad_desc (snd entry))
                     (fst entry)])
               (fst acc), snd acc)
          else (fst acc, snd acc @ [warning (fst entry)])
      | _ \<Rightarrow> (fst acc, snd acc @ [warning (fst entry)]))"

definition group_registers_by_peripheral ::
  "(string \<times> RegAddrDesc) list \<Rightarrow> (string \<times> string) list \<Rightarrow> (string \<times> string) list
     \<Rightarrow> (string \<times> RegisterInfo list) list \<times> string list" where
  "group_registers_by_peripheral ri p2p p2r = foldl (group_step p2p p2r) ([], []) ri"

section \<open>build_device_tree\<close>

text \<open>
  Lines 281-286.  \<open>all_reg_fqns\<close> is a Python set; the loop only asks whether some element
  passes the test, so a list of the elements serves.
\<close>

definition is_more_specific_match :: "string list \<Rightarrow> string \<Rightarrow> string \<Rightarrow> bool" where
  "is_more_specific_match all_reg_fqns rd field_prefix =
     list_ex (\<lambda>other_reg_fqn.
        length rd < length other_reg_fqn \<and> startswith other_reg_fqn rd
        \<and> startswith field_prefix (other_reg_fqn @ ''_'')) all_reg_fqns"

text \<open>Lines 278-294, for one entry of \<open>fields_info\<close>: the fields it adds to the register.\<close>

definition field_of_entry ::
  "string list \<Rightarrow> (string \<times> string) list \<Rightarrow> string \<Rightarrow> string \<times> Props \<Rightarrow> Field list" where
  "field_of_entry all_reg_fqns fd rd entry =
     (let field_prefix = fst entry; props = snd entry
      in if startswith field_prefix (rd @ ''_'') then
           (if is_more_specific_match all_reg_fqns rd field_prefix then []
            else (let field_name = drop (length rd + 1) field_prefix
                  in case (bitOffset props, bitWidth props) of
                       (Some off, Some w) \<Rightarrow>
                         [Field field_name
                            (case map_of fd field_prefix of None \<Rightarrow> field_name | Some d \<Rightarrow> d)
                            off w]
                     | _ \<Rightarrow> []))
         else [])"

definition register_fields ::
  "string list \<Rightarrow> (string \<times> Props) list \<Rightarrow> (string \<times> string) list \<Rightarrow> string \<Rightarrow> Field list" where
  "register_fields all_reg_fqns fi fd rd = concat (map (field_of_entry all_reg_fqns fd rd) fi)"

text \<open>Lines 273-294: the register built for one \<open>RegisterInfo\<close>.\<close>

definition build_register ::
  "string list \<Rightarrow> (string \<times> Props) list \<Rightarrow> (string \<times> string) list \<Rightarrow> int \<Rightarrow> RegisterInfo
     \<Rightarrow> Register" where
  "build_register all_reg_fqns fi fd base reg_info =
     Register (reg_name reg_info) (desc reg_info) (addr reg_info - base) 32
       (register_fields all_reg_fqns fi fd (reg_define reg_info))"

text \<open>Lines 268-294: the peripheral built for a non-empty group of registers.\<close>

definition build_peripheral ::
  "string list \<Rightarrow> (string \<times> Props) list \<Rightarrow> (string \<times> string) list \<Rightarrow> string
     \<Rightarrow> RegisterInfo list \<Rightarrow> Peripheral" where
  "build_peripheral all_reg_fqns fi fd periph_name regs =
     (let base = min_list (map addr regs)
      in Peripheral periph_name base (periph_name @ '' Peripheral'')
           (foldl (\<lambda>rs reg_info.
                     AList.update (reg_name reg_info)
                       (build_register all_reg_fqns fi fd base reg_info) rs)
              [] (sort_key addr regs)))"

text \<open>Lines 260-263: the macro names of all the registers of all the peripherals.\<close>

definition collect_reg_fqns :: "(string \<times> RegisterInfo list) list \<Rightarrow> string list" where
  "collect_reg_fqns pers = concat (map (\<lambda>pr. map reg_define (snd pr)) pers)"

text \<open>Lines 259-296.  A peripheral without registers is skipped.\<close>

definition build_device_tree ::
  "string \<Rightarrow> string \<Rightarrow> (string \<times> RegisterInfo list) list \<Rightarrow> (string \<times> Props) list
     \<Rightarrow> (string \<times> string) list \<Rightarrow> Device" where
  "build_device_tree device_name device_description pers fi fd =
     (let all_reg_fqns = collect_reg_fqns pers
      in Device device_name device_description
           (foldl (\<lambda>ps pr.
                     if snd pr = [] then ps
                     else AList.update (fst pr)
                            (build_peripheral all_reg_fqns fi fd (fst pr) (snd pr)) ps)
              [] pers))"

section \<open>parse_header_to_device_tree\<close>

text \<open>
  The result is the exception raised, or the lines written to the error stream and the
  device tree returned.
\<close>

definition parse_header_to_device_tree ::
  "string list \<Rightarrow> string \<Rightarrow> string \<Rightarrow> error + (string list \<times> Device)" where
  "parse_header_to_device_tree ls device_name device_description =
     (case parse_header_lines ls of
        Inl e \<Rightarrow> Inl e
      | Inr parsed_data \<Rightarrow>
          (let grouped = group_registers_by_peripheral (registers_info parsed_data)
                           (reg_fqn_to_periph parsed_data) (reg_fqn_to_regname parsed_data)
           in Inr (snd grouped,
                   build_device_tree device_name device_description (fst grouped)
                     (fields_info parsed_data) (field_descriptions parsed_data))))"

section \<open>Kinds of header lines\<close>

text \<open>
  These predicates are not functions of the program.  They name, for the statements
  below, what \<open>parse_header_lines\<close> takes a line of the header to be.
\<close>

text \<open>The line defines \<open>pfx_SHIFT\<close> with a value that reads as \<open>v\<close>.\<close>

definition shift_line :: "string \<Rightarrow> string \<Rightarrow> int \<Rightarrow> bool" where
  "shift_line raw pfx v =
     (case define_groups (strip raw) of
        None \<Rightarrow> False
      | Some (name, value_str, comment) \<Rightarrow> name = pfx @ ''_SHIFT'' \<and> int_base0 value_str = Inr v)"

text \<open>The line defines \<open>pfx_BITS\<close> with a value that reads as \<open>v\<close>.\<close>

definition bits_line :: "string \<Rightarrow> string \<Rightarrow> int \<Rightarrow> bool" where
  "bits_line raw pfx v =
     (case define_groups (strip raw) of
        None \<Rightarrow> False
      | Some (name, value_str, comment) \<Rightarrow> name = pfx @ ''_BITS'' \<and> int_base0 value_str = Inr v)"

text \<open>The line is a register definition of the macro \<open>name\<close>.\<close>

definition register_line :: "string \<Rightarrow> string \<Rightarrow> bool" where
  "register_line raw name =
     (case define_groups (strip raw) of
        None \<Rightarrow> False
      | Some (n, value_str, comment) \<Rightarrow>
          n = name \<and> \<not> is_field_prop n comment \<and> startswith value_str ''0x'')"

text \<open>The line is a field-property define whose value \<open>int(value_str, 0)\<close> refuses.\<close>

definition bad_literal_line :: "string \<Rightarrow> bool" where
  "bad_literal_line raw =
     (case define_groups (strip raw) of
        None \<Rightarrow> False
      | Some (name, value_str, comment) \<Rightarrow> is_field_prop name comment \<and> isl (int_base0 value_str))"

text \<open>
  Every bit offset and bit width of the table is the value of a \<open>_SHIFT\<close> or \<open>_BITS\<close>
  define among the lines \<open>L\<close>.
\<close>

definition props_from_lines :: "string set \<Rightarrow> (string \<times> Props) list \<Rightarrow> bool" where
  "props_from_lines L fi =
     (\<forall>entry \<in> set fi.
        (\<forall>v. bitOffset (snd entry) = Some v \<longrightarrow> (\<exists>l \<in> L. shift_line l (fst entry) v))
        \<and> (\<forall>v. bitWidth (snd entry) = Some v \<longrightarrow> (\<exists>l \<in> L. bits_line l (fst entry) v)))"

text \<open>
  Every recorded name starts with its peripheral name and an underscore, and a name that
  has a peripheral name and a register name is the two joined by an underscore.
\<close>

definition fqn_tables_ok :: "(string \<times> string) list \<Rightarrow> (string \<times> string) list \<Rightarrow> bool" where
  "fqn_tables_ok p2p p2r =
     ((\<forall>entry \<in> set p2p. prefix (snd entry @ ''_'') (fst entry))
      \<and> (\<forall>k pn rn. map_of p2p k = Some pn \<and> map_of p2r k = Some rn \<longrightarrow> k = pn @ ''_'' @ rn))"

text \<open>
  The groups have distinct peripheral names, and every register of a group is defined by
  one of the macros \<open>K\<close>, by no macro twice, its macro being the name of the peripheral,
  an underscore and the name of the register.
\<close>

definition groups_ok :: "string set \<Rightarrow> (string \<times> RegisterInfo list) list \<Rightarrow> bool" where
  "groups_ok K groups =
     (distinct (map fst groups)
      \<and> (\<forall>entry \<in> set groups.
            distinct (map reg_define (snd entry))
            \<and> (\<forall>reg_info \<in> set (snd entry).
                  reg_define reg_info = fst entry @ ''_'' @ reg_name reg_info
                  \<and> reg_define reg_info \<in> K)))"

section \<open>The end-to-end example\<close>

text \<open>
  C1, refuted as stated.  On the five lines of the example the first comment matches
  neither comment pattern, and the second one records the name \<open>UART_UART_CTRL\<close>, which
  does not start the macro name \<open>UART_CTRL\<close>.  The tree has no peripheral named
  \<open>UART\<close>.
\<close>

theorem C1_counterexample:
  "\<not> (case parse_header_to_device_tree
         [''/* UART :: UART_CTRL :: Control register */'',
          ''#define UART_CTRL 0x1000'',
          ''/* UART :: UART_CTRL :: ENABLE :: Enable bit [0:0] */'',
          ''#define UART_CTRL_ENABLE_SHIFT 0'',
          ''#define UART_CTRL_ENABLE_BITS 1'']
         ''Device Name'' ''Device Description''
       of Inl e \<Rightarrow> False
        | Inr out \<Rightarrow> map fst (peripherals (snd out)) = [''UART''])"
  by code_simp

text \<open>
  C1, amended.  For the five lines of the example the conversion writes one warning, that
  no peripheral could be determined for \<open>UART_CTRL\<close>, and returns a device without
  peripherals.  The tree of the example (one peripheral \<open>UART\<close> at \<open>0x1000\<close>, one
  register \<open>CTRL\<close> at offset 0 described as "Control register", one field \<open>ENABLE\<close>
  at bit 0 of width 1 described as "Enable bit") is what the conversion returns for the
  same register and field written in the form the patterns read: the description of the
  register in the comment of its define, and the field comment as
  \<open>PERIPHERAL :: REGISTER :: description [msb:lsb]\<close>.
\<close>

theorem C1_end_to_end:
  "parse_header_to_device_tree
     [''/* UART :: UART_CTRL :: Control register */'',
      ''#define UART_CTRL 0x1000'',
      ''/* UART :: UART_CTRL :: ENABLE :: Enable bit [0:0] */'',
      ''#define UART_CTRL_ENABLE_SHIFT 0'',
      ''#define UART_CTRL_ENABLE_BITS 1'']
     ''Device Name'' ''Device Description''
   = Inr ([''Warning: Could not determine peripheral for register UART_CTRL''],
          Device ''Device Name'' ''Device Description'' [])
   \<and>
   parse_header_to_device_tree
     [''#define UART_CTRL 0x1000 /* Control register */'',
      ''/* UART :: CTRL :: Enable bit [0:0] */'',
      ''#define UART_CTRL_ENABLE_SHIFT 0'',
      ''#define UART_CTRL_ENABLE_BITS 1'']
     ''Device Name'' ''Device Description''
   = Inr ([],
          Device ''Device Name'' ''Device Description''
            [(''UART'',
              Peripheral ''UART'' 0x1000 ''UART Peripheral''
                [(''CTRL'',
                  Register ''CTRL'' ''Control register'' 0 32
                    [Field ''ENABLE'' ''Enable bit'' 0 1])])])"
  by code_simp

section \<open>Fallback grouping\<close>

text \<open>The first hit in a list sorted by a key has the least key among the hits.\<close>

lemma find_sorted_least:
  "sorted (map f xs) \<Longrightarrow> find P xs = Some x \<Longrightarrow> y \<in> set xs \<Longrightarrow> P y \<Longrightarrow> f x \<le> f y"
  by (induction xs) (auto split: if_splits)

lemma find_longest_first:
  assumes "find (\<lambda>kv. startswith rd (fst kv)) (longest_first p2p) = Some kv"
  shows "kv \<in> set p2p" and "prefix (fst kv) rd"
    and "\<And>kv'. kv' \<in> set p2p \<Longrightarrow> prefix (fst kv') rd \<Longrightarrow> length (fst kv') \<le> length (fst kv)"
proof -
  from assms have "kv \<in> set (longest_first p2p)" and "startswith rd (fst kv)"
    by (auto simp: find_Some_iff)
  then show "kv \<in> set p2p" and "prefix (fst kv) rd"
    by (simp_all add: longest_first_def startswith_def)
next
  fix kv' assume kv': "kv' \<in> set p2p" "prefix (fst kv') rd"
  have "sorted (map (\<lambda>kv. - int (length (fst kv))) (longest_first p2p))"
    by (simp add: longest_first_def)
  from find_sorted_least [OF this assms, of kv'] kv'
  show "length (fst kv') \<le> length (fst kv)"
    by (simp add: longest_first_def startswith_def)
qed

lemma find_longest_first_None:
  "find (\<lambda>kv. startswith rd (fst kv)) (longest_first p2p) = None
     \<longleftrightarrow> (\<forall>kv \<in> set p2p. \<not> prefix (fst kv) rd)"
  by (auto simp: find_None_iff longest_first_def startswith_def)

lemma prefix_same_length: "prefix a s \<Longrightarrow> prefix b s \<Longrightarrow> length a = length b \<Longrightarrow> a = b"
  by (auto simp: prefix_def)

lemma resolve_register_fallback:
  assumes dist: "distinct (map fst p2p)"
    and nodirect: "map_of p2p rd = None"
    and mem: "(k, pn) \<in> set p2p"
    and pre: "prefix k rd"
    and longest: "\<And>k'. k' \<in> fst ` set p2p \<Longrightarrow> prefix k' rd \<Longrightarrow> length k' \<le> length k"
  shows "resolve_register p2p p2r rd = (Some pn, Some (drop (length pn + 1) rd))"
proof -
  have "find (\<lambda>kv. startswith rd (fst kv)) (longest_first p2p) \<noteq> None"
    unfolding find_longest_first_None using mem pre by force
  then obtain kv where f: "find (\<lambda>kv. startswith rd (fst kv)) (longest_first p2p) = Some kv"
    by blast
  note F = find_longest_first [OF f]
  have "length k \<le> length (fst kv)" using F(3) [of "(k, pn)"] mem pre by simp
  moreover have "length (fst kv) \<le> length k" using longest [of "fst kv"] F(1,2) by simp
  ultimately have "fst kv = k" using prefix_same_length [OF F(2) pre] by simp
  with F(1) have "(k, snd kv) \<in> set p2p" by (metis prod.collapse)
  with dist mem have "snd kv = pn" by (meson eq_key_imp_eq_value)
  then show ?thesis using f nodirect
    by (simp add: resolve_register_def truthy_def)
qed

text \<open>
  C2, refuted as stated.  With the name \<open>FOO_BAR\<close> recorded for peripheral \<open>FOO\<close>
  and register \<open>BAR\<close>, the register grouped for the macro \<open>FOO_BAR_BAZ\<close> is not
  named \<open>BAZ\<close>.
\<close>

theorem C2_counterexample:
  "map (\<lambda>pr. (fst pr, map reg_name (snd pr)))
     (fst (group_registers_by_peripheral [(''FOO_BAR_BAZ'', RegAddrDesc 0x10 ''desc'')]
        [(''FOO_BAR'', ''FOO'')] [(''FOO_BAR'', ''BAR'')]))
   \<noteq> [(''FOO'', [''BAZ''])]"
  by code_simp

text \<open>
  C2, amended.  When \<open>FOO_BAR_BAZ\<close> has no direct association and \<open>FOO_BAR\<close>,
  recorded for peripheral \<open>FOO\<close>, is the longest recorded name that starts it, the
  fallback resolves \<open>FOO_BAR_BAZ\<close> to peripheral \<open>FOO\<close> with the register name
  \<open>BAR_BAZ\<close>: the macro name without the peripheral name and the underscore after it.
\<close>

theorem C2_fallback_grouping:
  assumes "distinct (map fst p2p)"
    and "map_of p2p ''FOO_BAR_BAZ'' = None"
    and "map_of p2p ''FOO_BAR'' = Some ''FOO''"
    and "\<forall>k \<in> fst ` set p2p. prefix k ''FOO_BAR_BAZ'' \<longrightarrow> length k \<le> length ''FOO_BAR''"
  shows "resolve_register p2p p2r ''FOO_BAR_BAZ'' = (Some ''FOO'', Some ''BAR_BAZ'')
    \<and> group_registers_by_peripheral [(''FOO_BAR_BAZ'', RegAddrDesc a d)] p2p p2r
        = ([(''FOO'', [RegisterInfo ''BAR_BAZ'' a (if d = [] then ''BAR_BAZ'' else d)
                         ''FOO_BAR_BAZ''])], [])"
proof -
  from assms(3) have mem: "(''FOO_BAR'', ''FOO'') \<in> set p2p" by (rule map_of_SomeD)
  have "resolve_register p2p p2r ''FOO_BAR_BAZ''
          = (Some ''FOO'', Some (drop (length ''FOO'' + 1) ''FOO_BAR_BAZ''))"
    using assms(4) by (intro resolve_register_fallback [OF assms(1,2) mem]) auto
  then have r: "resolve_register p2p p2r ''FOO_BAR_BAZ'' = (Some ''FOO'', Some ''BAR_BAZ'')"
    by simp
  then show ?thesis
    by (simp add: group_registers_by_peripheral_def group_step_def)
qed

theorem C2_fallback_grouping_witness:
  "distinct (map fst [(''FOO_BAR'', ''FOO'')])
   \<and> map_of [(''FOO_BAR'', ''FOO'')] ''FOO_BAR_BAZ'' = None
   \<and> map_of [(''FOO_BAR'', ''FOO'')] ''FOO_BAR'' = Some ''FOO''
   \<and> resolve_register [(''FOO_BAR'', ''FOO'')] [(''FOO_BAR'', ''BAR'')] ''FOO_BAR_BAZ''
       = (Some ''FOO'', Some ''BAR_BAZ'')
   \<and> group_registers_by_peripheral [(''FOO_BAR_BAZ'', RegAddrDesc 0x10 ''desc'')]
        [(''FOO_BAR'', ''FOO'')] [(''FOO_BAR'', ''BAR'')]
       = ([(''FOO'', [RegisterInfo ''BAR_BAZ'' 0x10 ''desc'' ''FOO_BAR_BAZ''])], [])"
  using C2_fallback_grouping [of "[(''FOO_BAR'', ''FOO'')]" "[(''FOO_BAR'', ''BAR'')]" "0x10" "''desc''"]
  by simp

section \<open>Where the parts of the tree come from\<close>

lemma set_update_subset: "set (AList.update k v al) \<subseteq> insert (k, v) (set al)"
  by (induction al) auto

lemma foldl_update_mem:
  "(k, v) \<in> set (foldl (\<lambda>acc x. AList.update (key x) (val x) acc) init xs)
     \<Longrightarrow> (k, v) \<in> set init \<or> (\<exists>x \<in> set xs. k = key x \<and> v = val x)"
proof (induction xs arbitrary: init)
  case Nil
  then show ?case by simp
next
  case (Cons x xs)
  from Cons.IH [of "AList.update (key x) (val x) init"] Cons.prems
  show ?case using set_update_subset [of "key x" "val x" init] by auto
qed

lemma foldl_update_skip_mem:
  "(k, v) \<in> set (foldl (\<lambda>acc x. if skip x then acc else AList.update (key x) (val x) acc) init xs)
     \<Longrightarrow> (k, v) \<in> set init \<or> (\<exists>x \<in> set xs. \<not> skip x \<and> k = key x \<and> v = val x)"
proof (induction xs arbitrary: init)
  case Nil
  then show ?case by simp
next
  case (Cons x xs)
  show ?case
  proof (cases "skip x")
    case True
    with Cons.IH [of init] Cons.prems show ?thesis by auto
  next
    case False
    with Cons.IH [of "AList.update (key x) (val x) init"] Cons.prems
    show ?thesis using set_update_subset [of "key x" "val x" init] by auto
  qed
qed

lemma foldl_update_skip_keys:
  "fst ` set (foldl (\<lambda>acc x. if skip x then acc else AList.update (key x) (val x) acc) init xs)
     = fst ` set init \<union> key ` {x \<in> set xs. \<not> skip x}"
  by (induction xs arbitrary: init) (auto simp: AList.dom_update)

lemma peripheral_provenance:
  assumes "(pn, p) \<in> set (peripherals (build_device_tree dn dd pers fi fd))"
  shows "\<exists>regs. (pn, regs) \<in> set pers \<and> regs \<noteq> []
           \<and> p = build_peripheral (collect_reg_fqns pers) fi fd pn regs"
proof -
  from assms have "(pn, p) \<in> set (foldl (\<lambda>ps pr. if snd pr = [] then ps
       else AList.update (fst pr) (build_peripheral (collect_reg_fqns pers) fi fd (fst pr) (snd pr)) ps)
       [] pers)"
    by (simp add: build_device_tree_def)
  from foldl_update_skip_mem [OF this]
  obtain pr where "pr \<in> set pers" "snd pr \<noteq> []" "pn = fst pr"
    "p = build_peripheral (collect_reg_fqns pers) fi fd (fst pr) (snd pr)"
    by auto
  then show ?thesis by (intro exI [of _ "snd pr"]) auto
qed

lemma peripheral_names:
  "fst ` set (peripherals (build_device_tree dn dd pers fi fd))
     = {pn. \<exists>regs. (pn, regs) \<in> set pers \<and> regs \<noteq> []}"
  unfolding build_device_tree_def Let_def Device.sel foldl_update_skip_keys
  by force

lemma register_provenance:
  assumes "(rn, r) \<in> set (registers (build_peripheral all_reg_fqns fi fd pn regs))"
  shows "\<exists>reg_info \<in> set regs. rn = reg_name reg_info
           \<and> r = build_register all_reg_fqns fi fd (min_list (map addr regs)) reg_info"
proof -
  from assms have "(rn, r) \<in> set (foldl (\<lambda>rs reg_info. AList.update (reg_name reg_info)
       (build_register all_reg_fqns fi fd (min_list (map addr regs)) reg_info) rs)
       [] (sort_key addr regs))"
    by (simp add: build_peripheral_def Let_def)
  from foldl_update_mem [OF this] show ?thesis by auto
qed

lemma min_list_le: "x \<in> set xs \<Longrightarrow> min_list xs \<le> (x::int)"
  by (cases "xs = []") (simp_all add: min_list_Min)

section \<open>Fields of a register\<close>

lemma field_of_entry_cases:
  assumes "f \<in> set (field_of_entry all_reg_fqns fd rd entry)"
  shows "startswith (fst entry) (rd @ ''_'')"
    and "\<not> is_more_specific_match all_reg_fqns rd (fst entry)"
    and "f_name f = drop (length rd + 1) (fst entry)"
    and "bitOffset (snd entry) = Some (bit_offset f)"
    and "bitWidth (snd entry) = Some (bit_width f)"
    and "f_description f = (case map_of fd (fst entry) of None \<Rightarrow> f_name f | Some d \<Rightarrow> d)"
  using assms
  by (auto simp: field_of_entry_def Let_def split: if_splits option.splits)

lemma register_fields_mem:
  "f \<in> set (register_fields all_reg_fqns fi fd rd)
     \<longleftrightarrow> (\<exists>entry \<in> set fi. f \<in> set (field_of_entry all_reg_fqns fd rd entry))"
  by (auto simp: register_fields_def)

lemma startswith_append: "startswith (a @ b) a"
  by (simp add: startswith_def)

lemma field_of_entry_more_specific:
  assumes "other \<in> set all_reg_fqns" "length rd < length other" "prefix rd other"
    and "prefix (other @ ''_'') field_prefix"
  shows "field_of_entry all_reg_fqns fd rd (field_prefix, props) = []"
proof -
  have "is_more_specific_match all_reg_fqns rd field_prefix"
    using assms by (auto simp: is_more_specific_match_def list_ex_iff startswith_def)
  then show ?thesis by (simp add: field_of_entry_def)
qed

lemma field_of_entry_shorter:
  assumes "target \<in> set all_reg_fqns" and "length rd < length target"
  shows "field_of_entry all_reg_fqns fd rd (target @ ''_'' @ X, props) = []"
proof (cases "prefix (rd @ ''_'') (target @ ''_'' @ X)")
  case False
  then show ?thesis by (simp add: field_of_entry_def startswith_def)
next
  case True
  then have "prefix rd (target @ ''_'' @ X)" by (meson prefix_order.trans prefixI)
  moreover have "prefix target (target @ ''_'' @ X)" by simp
  ultimately have "prefix rd target"
    using assms(2) by (intro prefix_length_prefix [of rd "target @ ''_'' @ X" target]) simp_all
  with assms show ?thesis
    by (intro field_of_entry_more_specific [of target]) simp_all
qed

lemma field_of_entry_most_specific:
  assumes "\<forall>other \<in> set all_reg_fqns.
      \<not> (length rd < length other \<and> prefix rd other \<and> prefix (other @ ''_'') (rd @ ''_'' @ X))"
  shows "field_of_entry all_reg_fqns fd rd (rd @ ''_'' @ X, Props (Some off) (Some w))
           = [Field X (case map_of fd (rd @ ''_'' @ X) of None \<Rightarrow> X | Some d \<Rightarrow> d) off w]"
proof -
  have "\<not> is_more_specific_match all_reg_fqns rd (rd @ ''_'' @ X)"
    using assms by (auto simp: is_more_specific_match_def list_ex_iff startswith_def)
  then show ?thesis by (simp add: field_of_entry_def startswith_def)
qed

section \<open>Complete and incomplete fields\<close>

lemma field_of_entry_incomplete:
  "bitOffset (snd entry) = None \<or> bitWidth (snd entry) = None
     \<Longrightarrow> field_of_entry all_reg_fqns fd rd entry = []"
  by (auto simp: field_of_entry_def Let_def split: option.splits)

lemma register_fields_filter:
  "register_fields all_reg_fqns
     (filter (\<lambda>entry. bitOffset (snd entry) \<noteq> None \<and> bitWidth (snd entry) \<noteq> None) fi) fd rd
   = register_fields all_reg_fqns fi fd rd"
  unfolding register_fields_def
  by (induction fi) (auto simp: field_of_entry_incomplete)

lemma build_device_tree_filter:
  "build_device_tree dn dd pers
     (filter (\<lambda>entry. bitOffset (snd entry) \<noteq> None \<and> bitWidth (snd entry) \<noteq> None) fi) fd
   = build_device_tree dn dd pers fi fd"
  unfolding build_device_tree_def build_peripheral_def build_register_def
    register_fields_filter ..

lemma tree_field_provenance:
  assumes "(pn, p) \<in> set (peripherals (build_device_tree dn dd pers fi fd))"
    and "(rn, r) \<in> set (registers p)"
    and "f \<in> set (r_fields r)"
  shows "\<exists>regs reg_info entry. (pn, regs) \<in> set pers \<and> reg_info \<in> set regs
           \<and> rn = reg_name reg_info \<and> entry \<in> set fi
           \<and> fst entry = reg_define reg_info @ ''_'' @ f_name f
           \<and> bitOffset (snd entry) = Some (bit_offset f)
           \<and> bitWidth (snd entry) = Some (bit_width f)
           \<and> f_description f = (case map_of fd (fst entry) of None \<Rightarrow> f_name f | Some d \<Rightarrow> d)"
proof -
  from peripheral_provenance [OF assms(1)] obtain regs where
    regs: "(pn, regs) \<in> set pers"
    and p: "p = build_peripheral (collect_reg_fqns pers) fi fd pn regs"
    by blast
  from assms(2) register_provenance [of rn r "collect_reg_fqns pers" fi fd pn regs]
  obtain reg_info where
    ri: "reg_info \<in> set regs" "rn = reg_name reg_info"
      "r = build_register (collect_reg_fqns pers) fi fd (min_list (map addr regs)) reg_info"
    unfolding p by blast
  from assms(3) obtain entry where entry: "entry \<in> set fi"
    "f \<in> set (field_of_entry (collect_reg_fqns pers) fd (reg_define reg_info) entry)"
    by (auto simp: ri(3) build_register_def register_fields_mem)
  note E = field_of_entry_cases [OF entry(2)]
  from E(1) have "fst entry = (reg_define reg_info @ ''_'')
                     @ drop (length (reg_define reg_info) + 1) (fst entry)"
    by (auto simp: startswith_def prefix_def)
  with E(3) have "fst entry = reg_define reg_info @ ''_'' @ f_name f" by simp
  with regs ri(1,2) entry(1) E(4,5,6) show ?thesis by blast
qed

section \<open>What the groups of a define can be\<close>

lemma rep_rests_mem:
  "r \<in> set (drop mn (rep_rests p s)) \<Longrightarrow> \<exists>run. s = run @ r \<and> list_all p run \<and> mn \<le> length run"
proof (induction s arbitrary: mn)
  case Nil
  then show ?case by (cases mn) auto
next
  case (Cons c cs)
  show ?case
  proof (cases mn)
    case 0
    with Cons.prems have "r = c # cs \<or> (p c \<and> r \<in> set (drop 0 (rep_rests p cs)))"
      by (auto split: if_splits)
    then show ?thesis
    proof
      assume "r = c # cs"
      then show ?thesis using 0 by (intro exI [of _ "[]"]) simp
    next
      assume h: "p c \<and> r \<in> set (drop 0 (rep_rests p cs))"
      with Cons.IH [of 0] obtain run where "cs = run @ r" "list_all p run" by auto
      with h show ?thesis using 0 by (intro exI [of _ "c # run"]) simp
    qed
  next
    case (Suc k)
    with Cons.prems have h: "p c \<and> r \<in> set (drop k (rep_rests p cs))"
      by (auto split: if_splits)
    with Cons.IH [of k] obtain run where "cs = run @ r" "list_all p run" "k \<le> length run" by auto
    with h show ?thesis using Suc by (intro exI [of _ "c # run"]) simp
  qed
qed

lemma rx_run_Rep:
  assumes "(s', c') \<in> set (rx_run (Rep g mn p) (s, c))"
  shows "c' = c \<and> (\<exists>run. s = run @ s' \<and> list_all p run \<and> mn \<le> length run)"
proof -
  from assms have "c' = c" and "s' \<in> set (drop mn (rep_rests p s))"
    by (auto simp: Let_def split: if_splits)
  with rep_rests_mem [of s' mn p s] show ?thesis by simp
qed

lemma rx_run_Lit:
  "(s', c') \<in> set (rx_run (Lit l) (s, c)) \<Longrightarrow> c' = c \<and> s = l @ s'"
  by (auto simp: prefix_def split: if_splits)

lemma rx_run_Seq:
  "(s', c') \<in> set (rx_run (Seq a b) (s, c))
     \<Longrightarrow> \<exists>s1 c1. (s1, c1) \<in> set (rx_run a (s, c)) \<and> (s', c') \<in> set (rx_run b (s1, c1))"
  by auto

lemma rx_run_suffix:
  "(s', c') \<in> set (rx_run r (s, c)) \<Longrightarrow> \<exists>run. s = run @ s'"
proof (induction r arbitrary: s c s' c')
  case (Lit l)
  then show ?case using rx_run_Lit by blast
next
  case (Rep g mn p)
  then show ?case using rx_run_Rep by blast
next
  case (Seq a b)
  from rx_run_Seq [OF Seq.prems] obtain s1 c1 where
    "(s1, c1) \<in> set (rx_run a (s, c))" "(s', c') \<in> set (rx_run b (s1, c1))" by blast
  with Seq.IH show ?case by (metis append.assoc)
next
  case (Alt a b)
  then show ?case by auto
next
  case (Opt a)
  then show ?case by auto
next
  case (Grp i a)
  then show ?case by auto
qed

lemma rx_run_Grp:
  assumes "(s', c') \<in> set (rx_run (Grp i a) (s, c))"
  shows "\<exists>run c1. (s', c1) \<in> set (rx_run a (s, c)) \<and> s = run @ s' \<and> c' = c1(i \<mapsto> run)"
proof -
  from assms obtain c1 where a: "(s', c1) \<in> set (rx_run a (s, c))"
    and c': "c' = c1(i \<mapsto> take (length s - length s') s)"
    by auto
  from rx_run_suffix [OF a] obtain run where "s = run @ s'" by blast
  with a c' show ?thesis by auto
qed

text \<open>A match leaves the groups that the pattern does not have as they were.\<close>

lemma rx_run_other_groups:
  "(s', c') \<in> set (rx_run r (s, c)) \<Longrightarrow> i \<notin> groups_of r \<Longrightarrow> c' i = c i"
proof (induction r arbitrary: s c s' c')
  case (Seq a b)
  from rx_run_Seq [OF Seq.prems(1)] obtain s1 c1 where
    "(s1, c1) \<in> set (rx_run a (s, c))" "(s', c') \<in> set (rx_run b (s1, c1))" by blast
  with Seq.IH Seq.prems(2) show ?case by (metis UnCI groups_of.simps(3))
qed (auto split: if_splits simp: Let_def)


lemma rx_run_Grp_Rep:
  assumes "(s', c') \<in> set (rx_run (Grp i (Rep g mn p)) (s, c))"
  shows "\<exists>run. s = run @ s' \<and> list_all p run \<and> mn \<le> length run \<and> c' = c(i \<mapsto> run)"
proof -
  from rx_run_Grp [OF assms] obtain run c1 where
    a: "(s', c1) \<in> set (rx_run (Rep g mn p) (s, c))" "s = run @ s'" "c' = c1(i \<mapsto> run)"
    by blast
  from rx_run_Rep [OF a(1)] obtain run' where
    "c1 = c" "s = run' @ s'" "list_all p run'" "mn \<le> length run'" by blast
  with a(2,3) show ?thesis by auto
qed

lemma rx_match_mem:
  "rx_match r s = Some c \<Longrightarrow> \<exists>s'. (s', c) \<in> set (rx_run r (s, \<lambda>_. None))"
  by (auto simp: rx_match_def split: list.splits)

lemma define_groups_shape:
  assumes "define_groups line = Some (name, value_str, comment)"
  shows "name \<noteq> [] \<and> list_all is_word name"
    and "(\<exists>ds. value_str = ''0x'' @ ds \<and> ds \<noteq> [] \<and> list_all is_hex ds)
         \<or> (value_str \<noteq> [] \<and> list_all is_digit value_str)"
proof -
  from assms obtain c where m: "rx_match DEFINE_RE line = Some c"
    and c1: "c 1 = Some name" and c2: "c 2 = Some value_str"
    by (auto simp: define_groups_def split: option.splits)
  let ?tail = "Seq ws_star
    (Opt (seqs [Lit ''/*'', ws_star, Grp 3 (Rep False 0 any_char), ws_star, Lit ''*/'']))"
  let ?val = "Alt (Seq (Lit ''0x'') (Rep True 1 is_hex)) (Rep True 1 is_digit)"
  from rx_match_mem [OF m] obtain s' where
    "(s', c) \<in> set (rx_run DEFINE_RE (line, \<lambda>_. None))" by blast
  then have run: "(s', c) \<in> set (rx_run
      (Seq (Lit ''#define'') (Seq ws_plus (Seq (Grp 1 (Rep True 1 is_word))
         (Seq ws_plus (Seq (Grp 2 ?val) ?tail))))) (line, \<lambda>_. None))"
    by (simp add: DEFINE_RE_def)
  from rx_run_Seq [OF run] obtain s1 c1' where
    r1: "(s1, c1') \<in> set (rx_run (Lit ''#define'') (line, \<lambda>_. None))"
    and run1: "(s', c) \<in> set (rx_run (Seq ws_plus (Seq (Grp 1 (Rep True 1 is_word))
         (Seq ws_plus (Seq (Grp 2 ?val) ?tail)))) (s1, c1'))" by blast
  from rx_run_Seq [OF run1] obtain s2 c2' where
    r2: "(s2, c2') \<in> set (rx_run ws_plus (s1, c1'))"
    and run2: "(s', c) \<in> set (rx_run (Seq (Grp 1 (Rep True 1 is_word))
         (Seq ws_plus (Seq (Grp 2 ?val) ?tail))) (s2, c2'))" by blast
  from rx_run_Seq [OF run2] obtain s3 c3' where
    r3: "(s3, c3') \<in> set (rx_run (Grp 1 (Rep True 1 is_word)) (s2, c2'))"
    and run3: "(s', c) \<in> set (rx_run (Seq ws_plus (Seq (Grp 2 ?val) ?tail)) (s3, c3'))" by blast
  from rx_run_Seq [OF run3] obtain s4 c4' where
    r4: "(s4, c4') \<in> set (rx_run ws_plus (s3, c3'))"
    and run4: "(s', c) \<in> set (rx_run (Seq (Grp 2 ?val) ?tail) (s4, c4'))" by blast
  from rx_run_Seq [OF run4] obtain s5 c5' where
    r5: "(s5, c5') \<in> set (rx_run (Grp 2 ?val) (s4, c4'))"
    and run5: "(s', c) \<in> set (rx_run ?tail (s5, c5'))" by blast
  have tail1: "c 1 = c5' 1" and tail2: "c 2 = c5' 2"
    using rx_run_other_groups [OF run5, of 1] rx_run_other_groups [OF run5, of 2] by simp_all
  from rx_run_Grp_Rep [OF r3] obtain run_name where
    n: "list_all is_word run_name" "1 \<le> length run_name" "c3' = c2'(1 \<mapsto> run_name)" by blast
  from rx_run_Rep [OF r4] have c4: "c4' = c3'" by simp
  from rx_run_Grp [OF r5] obtain run_val cv where
    v: "(s5, cv) \<in> set (rx_run ?val (s4, c4'))" "s4 = run_val @ s5" "c5' = cv(2 \<mapsto> run_val)"
    by blast
  have "cv 1 = c4' 1" using rx_run_other_groups [OF v(1), of 1] by simp
  with tail1 v(3) c4 n(3) c1 have "name = run_name" by simp
  with n show "name \<noteq> [] \<and> list_all is_word name" by auto
  from tail2 v(3) c2 have val: "value_str = run_val" by simp
  from v(1) have "(s5, cv) \<in> set (rx_run (Seq (Lit ''0x'') (Rep True 1 is_hex)) (s4, c4'))
      \<or> (s5, cv) \<in> set (rx_run (Rep True 1 is_digit) (s4, c4'))"
    by simp
  then show "(\<exists>ds. value_str = ''0x'' @ ds \<and> ds \<noteq> [] \<and> list_all is_hex ds)
         \<or> (value_str \<noteq> [] \<and> list_all is_digit value_str)"
  proof
    assume "(s5, cv) \<in> set (rx_run (Seq (Lit ''0x'') (Rep True 1 is_hex)) (s4, c4'))"
    from rx_run_Seq [OF this] obtain t ct where
      "(t, ct) \<in> set (rx_run (Lit ''0x'') (s4, c4'))"
      "(s5, cv) \<in> set (rx_run (Rep True 1 is_hex) (t, ct))" by blast
    with rx_run_Lit [of t ct "''0x''" s4 c4'] rx_run_Rep [of s5 cv True 1 is_hex t ct]
    obtain ds where "s4 = ''0x'' @ t" "t = ds @ s5" "list_all is_hex ds" "1 \<le> length ds"
      by blast
    with v(2) val have "value_str = ''0x'' @ ds \<and> ds \<noteq> [] \<and> list_all is_hex ds" by auto
    then show ?thesis by blast
  next
    assume "(s5, cv) \<in> set (rx_run (Rep True 1 is_digit) (s4, c4'))"
    from rx_run_Rep [OF this] obtain ds where
      "s4 = ds @ s5" "list_all is_digit ds" "1 \<le> length ds" by blast
    with v(2) val have "value_str \<noteq> [] \<and> list_all is_digit value_str" by auto
    then show ?thesis by blast
  qed
qed

section \<open>Matches set their groups\<close>

text \<open>
  The functions that read the groups of a match answer \<open>None\<close> when a group that they
  need did not take part.  This never happens for a match: they answer \<open>None\<close> exactly
  when the pattern does not match.
\<close>

lemma rx_run_keeps_group:
  "(s', c') \<in> set (rx_run r (s, c)) \<Longrightarrow> c i \<noteq> None \<Longrightarrow> c' i \<noteq> None"
proof (induction r arbitrary: s c s' c')
  case (Seq a b)
  from rx_run_Seq [OF Seq.prems(1)] obtain s1 c1 where
    "(s1, c1) \<in> set (rx_run a (s, c))" "(s', c') \<in> set (rx_run b (s1, c1))" by blast
  with Seq.IH Seq.prems(2) show ?case by blast
next
  case (Grp j a)
  from rx_run_Grp [OF Grp.prems(1)] obtain run c1 where
    "(s', c1) \<in> set (rx_run a (s, c))" "c' = c1(j \<mapsto> run)" by blast
  with Grp.IH Grp.prems(2) show ?case by auto
qed (auto split: if_splits simp: Let_def)

lemma rx_run_sure_group:
  "(s', c') \<in> set (rx_run r (s, c)) \<Longrightarrow> i \<in> sure_groups r \<Longrightarrow> c' i \<noteq> None"
proof (induction r arbitrary: s c s' c')
  case (Seq a b)
  from rx_run_Seq [OF Seq.prems(1)] obtain s1 c1 where
    r: "(s1, c1) \<in> set (rx_run a (s, c))" "(s', c') \<in> set (rx_run b (s1, c1))" by blast
  from Seq.prems(2) have "i \<in> sure_groups a \<or> i \<in> sure_groups b" by simp
  then show ?case
  proof
    assume "i \<in> sure_groups a"
    with Seq.IH(1) r(1) have "c1 i \<noteq> None" by blast
    with rx_run_keeps_group [OF r(2)] show ?thesis by blast
  next
    assume "i \<in> sure_groups b"
    with Seq.IH(2) r(2) show ?thesis by blast
  qed
next
  case (Alt a b)
  then show ?case by auto
next
  case (Grp j a)
  from rx_run_Grp [OF Grp.prems(1)] obtain run c1 where
    r: "(s', c1) \<in> set (rx_run a (s, c))" "c' = c1(j \<mapsto> run)" by blast
  show ?case
  proof (cases "i = j")
    case True
    with r(2) show ?thesis by simp
  next
    case False
    with Grp.prems(2) have "i \<in> sure_groups a" by simp
    with Grp.IH r(1) have "c1 i \<noteq> None" by blast
    with r(2) False show ?thesis by simp
  qed
qed simp_all

lemma rx_search_mem:
  "rx_search r s = Some c \<Longrightarrow> \<exists>t s'. (s', c) \<in> set (rx_run r (t, \<lambda>_. None))"
proof (induction s)
  case Nil
  then show ?case using rx_match_mem by fastforce
next
  case (Cons x xs)
  show ?case
  proof (cases "rx_match r (x # xs)")
    case None
    with Cons show ?thesis by simp
  next
    case (Some m)
    with Cons.prems have "rx_match r (x # xs) = Some c" by simp
    from rx_match_mem [OF this] show ?thesis by blast
  qed
qed

lemma define_groups_None:
  "define_groups line = None \<longleftrightarrow> rx_match DEFINE_RE line = None"
proof (cases "rx_match DEFINE_RE line")
  case None
  then show ?thesis by (simp add: define_groups_def)
next
  case (Some c)
  from rx_match_mem [OF Some] obtain s' where
    m: "(s', c) \<in> set (rx_run DEFINE_RE (line, \<lambda>_. None))" by blast
  have "c 1 \<noteq> None" "c 2 \<noteq> None"
    using rx_run_sure_group [OF m, of 1] rx_run_sure_group [OF m, of 2]
    by (simp_all add: DEFINE_RE_def)
  with Some show ?thesis by (auto simp: define_groups_def)
qed

lemma field_comment_groups_None:
  "field_comment_groups line = None \<longleftrightarrow> rx_search FIELD_COMMENT_RE line = None"
proof (cases "rx_search FIELD_COMMENT_RE line")
  case None
  then show ?thesis by (simp add: field_comment_groups_def)
next
  case (Some c)
  from rx_search_mem [OF Some] obtain t s' where
    m: "(s', c) \<in> set (rx_run FIELD_COMMENT_RE (t, \<lambda>_. None))" by blast
  have "c 1 \<noteq> None" "c 2 \<noteq> None" "c 3 \<noteq> None"
    using rx_run_sure_group [OF m, of 1] rx_run_sure_group [OF m, of 2]
      rx_run_sure_group [OF m, of 3]
    by (simp_all add: FIELD_COMMENT_RE_def)
  with Some show ?thesis by (auto simp: field_comment_groups_def)
qed

lemma register_comment_groups_None:
  "register_comment_groups line = None \<longleftrightarrow> rx_search REGISTER_COMMENT_RE line = None"
proof (cases "rx_search REGISTER_COMMENT_RE line")
  case None
  then show ?thesis by (simp add: register_comment_groups_def)
next
  case (Some c)
  from rx_search_mem [OF Some] obtain t s' where
    m: "(s', c) \<in> set (rx_run REGISTER_COMMENT_RE (t, \<lambda>_. None))" by blast
  have "c 1 \<noteq> None" "c 2 \<noteq> None"
    using rx_run_sure_group [OF m, of 1] rx_run_sure_group [OF m, of 2]
    by (simp_all add: REGISTER_COMMENT_RE_def)
  with Some show ?thesis by (auto simp: register_comment_groups_def)
qed

section \<open>Names, suffixes and integer literals\<close>

lemma endswith_iff: "endswith s p \<longleftrightarrow> (\<exists>pre. s = pre @ p)"
proof -
  have "endswith s p \<longleftrightarrow> suffix p s"
    by (simp add: endswith_def suffix_to_prefix)
  then show ?thesis by (auto simp: suffix_def)
qed

lemma rsplit_underscore_append:
  assumes "CHR ''_'' \<notin> set suf"
  shows "rsplit_underscore (pre @ ''_'' @ suf) = Some (pre, suf)"
proof -
  have r: "rev (pre @ ''_'' @ suf) = rev suf @ CHR ''_'' # rev pre" by simp
  have t: "takeWhile (\<lambda>c. c \<noteq> CHR ''_'') (rev suf @ CHR ''_'' # rev pre) = rev suf"
    using assms by (subst takeWhile_append2) auto
  have d: "dropWhile (\<lambda>c. c \<noteq> CHR ''_'') (rev suf @ CHR ''_'' # rev pre) = CHR ''_'' # rev pre"
    using assms by (subst dropWhile_append2) auto
  show ?thesis
    unfolding rsplit_underscore_def r t d by simp
qed

lemma rsplit_underscore_Some:
  assumes "rsplit_underscore s = Some (a, b)"
  shows "s = a @ ''_'' @ b"
proof -
  let ?P = "\<lambda>c. c \<noteq> CHR ''_''"
  from assms obtain x rest where d: "dropWhile ?P (rev s) = x # rest"
    and a: "a = rev rest" and b: "b = rev (takeWhile ?P (rev s))"
    by (auto simp: rsplit_underscore_def Let_def split: list.splits)
  from d have "x = CHR ''_''" using hd_dropWhile [of ?P "rev s"] by force
  with d have "rev s = takeWhile ?P (rev s) @ CHR ''_'' # rest"
    using takeWhile_dropWhile_id [of ?P "rev s"] by simp
  then have "rev (rev s) = rev (takeWhile ?P (rev s) @ CHR ''_'' # rest)" by simp
  then show ?thesis using a b by simp
qed

lemma is_field_prop_rsplit:
  assumes "is_field_prop name comment"
  shows "\<exists>pfx prop. rsplit_underscore name = Some (pfx, prop) \<and> name = pfx @ ''_'' @ prop
           \<and> prop \<in> {''BITS'', ''SHIFT'', ''ALIGN'', ''MASK''}"
proof -
  from assms have "endswith name ''_BITS'' \<or> endswith name ''_SHIFT''
      \<or> endswith name ''_ALIGN'' \<or> endswith name ''_MASK''"
    by (auto simp: is_field_prop_def split: if_splits)
  then obtain pfx suf where "name = pfx @ ''_'' @ suf"
    "suf \<in> {''BITS'', ''SHIFT'', ''ALIGN'', ''MASK''}"
    unfolding endswith_iff by auto
  moreover from this have "rsplit_underscore name = Some (pfx, suf)"
    using rsplit_underscore_append [of suf pfx] by auto
  ultimately show ?thesis by blast
qed

lemma digit_val_nonneg: "is_hex c \<Longrightarrow> 0 \<le> digit_val c"
  by (auto simp: is_hex_def digit_val_def Let_def)

lemma is_digit_hex: "is_digit c \<Longrightarrow> is_hex c"
  by (auto simp: is_digit_def is_hex_def Let_def)

lemma foldl_digits_nonneg:
  "0 \<le> a \<Longrightarrow> 0 \<le> b \<Longrightarrow> list_all is_hex s \<Longrightarrow> 0 \<le> foldl (\<lambda>a c. a * b + digit_val c) a s"
  by (induction s arbitrary: a) (auto simp: digit_val_nonneg)

lemma digits_to_int_nonneg: "0 \<le> b \<Longrightarrow> list_all is_hex s \<Longrightarrow> 0 \<le> digits_to_int b s"
  unfolding digits_to_int_def by (rule foldl_digits_nonneg) simp_all

lemma int_base0_nonneg:
  assumes "int_base0 s = Inr v"
  shows "0 \<le> v"
proof -
  from assms consider
    "list_all is_hex (drop 2 s)" "v = digits_to_int 16 (drop 2 s)"
    | "list_all is_digit s" "v = digits_to_int 10 s"
    by (auto simp: int_base0_def split: if_splits)
  then show ?thesis
  proof cases
    case 1
    then show ?thesis by (simp add: digits_to_int_nonneg)
  next
    case 2
    from 2(1) have "list_all is_hex s" by (auto simp: list_all_iff is_digit_hex)
    with 2(2) show ?thesis by (simp add: digits_to_int_nonneg)
  qed
qed

lemma int_base16_hex:
  "ds \<noteq> [] \<Longrightarrow> list_all is_hex ds \<Longrightarrow> int_base16 (''0x'' @ ds) = Inr (digits_to_int 16 ds)"
  by (simp add: int_base16_def startswith_def)

lemma not_digit_x: "\<not> is_digit CHR ''x''"
  by (simp add: is_digit_def code_def)

lemma hex_value_of_define:
  assumes "define_groups line = Some (name, value_str, comment)"
    and "startswith value_str ''0x''"
  shows "int_base16 value_str = Inr (digits_to_int 16 (drop 2 value_str))"
proof -
  from define_groups_shape(2) [OF assms(1)] show ?thesis
  proof
    assume "\<exists>ds. value_str = ''0x'' @ ds \<and> ds \<noteq> [] \<and> list_all is_hex ds"
    then show ?thesis using int_base16_hex by auto
  next
    assume "value_str \<noteq> [] \<and> list_all is_digit value_str"
    with assms(2) not_digit_x have False
      by (auto simp: startswith_def prefix_def)
    then show ?thesis ..
  qed
qed

section \<open>What one line does to the tables\<close>

lemma consume_description_tables [simp]:
  "registers_info (consume_description st pfx) = registers_info st"
  "fields_info (consume_description st pfx) = fields_info st"
  "reg_fqn_to_periph (consume_description st pfx) = reg_fqn_to_periph st"
  "reg_fqn_to_regname (consume_description st pfx) = reg_fqn_to_regname st"
  by (auto simp: consume_description_def split: option.splits)

lemma record_fqn_tables [simp]:
  "registers_info (record_fqn st p r) = registers_info st"
  "fields_info (record_fqn st p r) = fields_info st"
  "field_descriptions (record_fqn st p r) = field_descriptions st"
  "last_field_info (record_fqn st p r) = last_field_info st"
  by (auto simp: record_fqn_def Let_def)

lemma handle_comment_tables [simp]:
  "registers_info (handle_comment st line) = registers_info st"
  "fields_info (handle_comment st line) = fields_info st"
  "field_descriptions (handle_comment st line) = field_descriptions st"
  by (auto simp: handle_comment_def split: option.splits)

text \<open>The description recorded for a register definition (line 162).\<close>

lemma process_define_register:
  assumes "define_groups line = Some (name, value_str, comment)"
    and "\<not> is_field_prop name comment" and "startswith value_str ''0x''"
  shows "process_define st name value_str comment =
     Inr (st\<lparr>registers_info :=
       AList.update name
         (RegAddrDesc (digits_to_int 16 (drop 2 value_str))
            (case comment of None \<Rightarrow> name
             | Some c \<Rightarrow> if c = [] then name else strip (remove_all c ''Register'')))
         (registers_info st)\<rparr>)"
  using assms(2,3) hex_value_of_define [OF assms(1,3)]
  by (simp add: process_define_def)

lemma process_define_ignored:
  "\<not> is_field_prop name comment \<Longrightarrow> \<not> startswith value_str ''0x''
     \<Longrightarrow> process_define st name value_str comment = Inr st"
  by (simp add: process_define_def)

lemma process_define_field_prop:
  assumes "is_field_prop name comment"
  shows "\<exists>pfx prop. name = pfx @ ''_'' @ prop \<and> prop \<in> {''BITS'', ''SHIFT'', ''ALIGN'', ''MASK''}
     \<and> process_define st name value_str comment =
        (case int_base0 value_str of
           Inl e \<Rightarrow> Inl e
         | Inr v \<Rightarrow>
             Inr (consume_description
               (if prop = ''SHIFT''
                then st\<lparr>fields_info := set_bitOffset (fields_info st) pfx v\<rparr>
                else if prop = ''BITS''
                then st\<lparr>fields_info := set_bitWidth (fields_info st) pfx v\<rparr>
                else st) pfx))"
proof -
  from is_field_prop_rsplit [OF assms] obtain pfx suf where
    "rsplit_underscore name = Some (pfx, suf)" "name = pfx @ ''_'' @ suf"
    "suf \<in> {''BITS'', ''SHIFT'', ''ALIGN'', ''MASK''}" by blast
  with assms show ?thesis
    by (intro exI [of _ pfx] exI [of _ suf]) (simp add: process_define_def)
qed

section \<open>The classification of a define\<close>

text \<open>
  C7, refuted as stated.  In the line \<open>#define FOO 0x10 /**/\<close> a comment is present and
  it is empty.  The register is recorded with the macro name as its description, not with
  the comment without "Register", which is the empty text.
\<close>

theorem C7_counterexample:
  "define_groups ''#define FOO 0x10 /**/'' = Some (''FOO'', ''0x10'', Some [])
   \<and> parse_header_lines [''#define FOO 0x10 /**/'']
       = Inr \<lparr>registers_info = [(''FOO'', RegAddrDesc 0x10 ''FOO'')],
               fields_info = [], field_descriptions = [],
               reg_fqn_to_periph = [], reg_fqn_to_regname = []\<rparr>
   \<and> strip (remove_all [] ''Register'') \<noteq> ''FOO''"
  by code_simp

text \<open>
  C7, amended.  For a define read by \<open>DEFINE_RE\<close>: a macro name that ends in \<open>_BITS\<close>,
  \<open>_SHIFT\<close> or \<open>_ALIGN\<close> is always classified as a field property; one that ends in
  \<open>_MASK\<close> is a field property exactly when there is no comment or the comment does not
  contain "Register"; a field property never changes the register table; a define
  with a value that starts with \<open>0x\<close> and is not a field property is recorded, without
  error, as a register definition under its macro name, with the value read in base 16 and
  with the description being the macro name when there is no comment or the comment is
  empty, and otherwise the comment with every "Register" removed and the whitespace at
  both ends trimmed; every other define is ignored.
\<close>

theorem C7_classification:
  assumes "define_groups line = Some (name, value_str, comment)"
  shows "(endswith name ''_BITS'' \<or> endswith name ''_SHIFT'' \<or> endswith name ''_ALIGN''
            \<longrightarrow> is_field_prop name comment)
    \<and> (endswith name ''_MASK''
            \<longrightarrow> is_field_prop name comment
                 = (case comment of None \<Rightarrow> True | Some c \<Rightarrow> \<not> contains c ''Register''))
    \<and> (is_field_prop name comment
            \<longrightarrow> (\<forall>st'. process_define st name value_str comment = Inr st'
                   \<longrightarrow> registers_info st' = registers_info st))
    \<and> (\<not> is_field_prop name comment \<and> startswith value_str ''0x''
            \<longrightarrow> process_define st name value_str comment =
                  Inr (st\<lparr>registers_info :=
                    AList.update name
                      (RegAddrDesc (digits_to_int 16 (drop 2 value_str))
                         (case comment of None \<Rightarrow> name
                          | Some c \<Rightarrow> if c = [] then name
                                      else strip (remove_all c ''Register'')))
                      (registers_info st)\<rparr>))
    \<and> (\<not> is_field_prop name comment \<and> \<not> startswith value_str ''0x''
            \<longrightarrow> process_define st name value_str comment = Inr st)"
proof (intro conjI impI allI)
  assume "endswith name ''_BITS'' \<or> endswith name ''_SHIFT'' \<or> endswith name ''_ALIGN''"
  then show "is_field_prop name comment" by (simp add: is_field_prop_def)
next
  assume m: "endswith name ''_MASK''"
  then obtain pre where n: "name = pre @ ''_MASK''" by (auto simp: endswith_iff)
  have "\<not> endswith name ''_BITS''" "\<not> endswith name ''_SHIFT''" "\<not> endswith name ''_ALIGN''"
    unfolding endswith_def n by (simp_all)
  with m show "is_field_prop name comment
       = (case comment of None \<Rightarrow> True | Some c \<Rightarrow> \<not> contains c ''Register'')"
    by (auto simp: is_field_prop_def split: option.splits)
next
  fix st'
  assume fp: "is_field_prop name comment"
    and r: "process_define st name value_str comment = Inr st'"
  from process_define_field_prop [OF fp, of st value_str] obtain pfx suf where
    pd: "process_define st name value_str comment =
        (case int_base0 value_str of
           Inl e \<Rightarrow> Inl e
         | Inr v \<Rightarrow>
             Inr (consume_description
               (if suf = ''SHIFT''
                then st\<lparr>fields_info := set_bitOffset (fields_info st) pfx v\<rparr>
                else if suf = ''BITS''
                then st\<lparr>fields_info := set_bitWidth (fields_info st) pfx v\<rparr>
                else st) pfx))"
    by blast
  show "registers_info st' = registers_info st"
  proof (cases "int_base0 value_str")
    case (Inl e)
    with pd r show ?thesis by simp
  next
    case (Inr v)
    with pd r have "st' = consume_description
               (if suf = ''SHIFT''
                then st\<lparr>fields_info := set_bitOffset (fields_info st) pfx v\<rparr>
                else if suf = ''BITS''
                then st\<lparr>fields_info := set_bitWidth (fields_info st) pfx v\<rparr>
                else st) pfx"
      by simp
    then show ?thesis by simp
  qed
next
  assume "\<not> is_field_prop name comment \<and> startswith value_str ''0x''"
  then show "process_define st name value_str comment =
                  Inr (st\<lparr>registers_info :=
                    AList.update name
                      (RegAddrDesc (digits_to_int 16 (drop 2 value_str))
                         (case comment of None \<Rightarrow> name
                          | Some c \<Rightarrow> if c = [] then name
                                      else strip (remove_all c ''Register'')))
                      (registers_info st)\<rparr>)"
    using process_define_register [OF assms] by simp
next
  assume "\<not> is_field_prop name comment \<and> \<not> startswith value_str ''0x''"
  then show "process_define st name value_str comment = Inr st"
    by (simp add: process_define_ignored)
qed

theorem C7_classification_witness:
  "define_groups ''#define CTL_MASK 0xff /* Register mask */''
     = Some (''CTL_MASK'', ''0xff'', Some ''Register mask'')
   \<and> endswith ''CTL_MASK'' ''_MASK''
   \<and> \<not> is_field_prop ''CTL_MASK'' (Some ''Register mask'')
   \<and> startswith ''0xff'' ''0x''
   \<and> process_define init_state ''CTL_MASK'' ''0xff'' (Some ''Register mask'')
       = Inr (init_state\<lparr>registers_info := [(''CTL_MASK'', RegAddrDesc 255 ''mask'')]\<rparr>)"
proof -
  have g: "define_groups ''#define CTL_MASK 0xff /* Register mask */''
     = Some (''CTL_MASK'', ''0xff'', Some ''Register mask'')"
    by code_simp
  have e: "endswith ''CTL_MASK'' ''_MASK''" by code_simp
  have c: "contains ''Register mask'' ''Register''" by code_simp
  have s: "startswith ''0xff'' ''0x''" by code_simp
  have v: "digits_to_int 16 (drop 2 ''0xff'') = 255" by code_simp
  have d: "strip (remove_all ''Register mask'' ''Register'') = ''mask''" by code_simp
  note T = C7_classification [OF g, of init_state]
  from T e c have nf: "\<not> is_field_prop ''CTL_MASK'' (Some ''Register mask'')" by simp
  with T s have "process_define init_state ''CTL_MASK'' ''0xff'' (Some ''Register mask'')
       = Inr (init_state\<lparr>registers_info :=
            AList.update ''CTL_MASK''
              (RegAddrDesc (digits_to_int 16 (drop 2 ''0xff''))
                 (strip (remove_all ''Register mask'' ''Register'')))
              (registers_info init_state)\<rparr>)"
    by simp
  then have "process_define init_state ''CTL_MASK'' ''0xff'' (Some ''Register mask'')
       = Inr (init_state\<lparr>registers_info := [(''CTL_MASK'', RegAddrDesc 255 ''mask'')]\<rparr>)"
    unfolding v d by (simp add: init_state_def)
  with g e nf s show ?thesis by simp
qed

section \<open>Runs of parse_lines\<close>

lemma process_define_field_prop_Inl:
  "is_field_prop name comment \<Longrightarrow> int_base0 value_str = Inl e
     \<Longrightarrow> process_define st name value_str comment = Inl e"
  using process_define_field_prop [of name comment st value_str] by auto

lemma process_define_field_prop_Inr:
  assumes "is_field_prop name comment" and "int_base0 value_str = Inr v"
  shows "\<exists>pfx suf. name = pfx @ ''_'' @ suf \<and> suf \<in> {''BITS'', ''SHIFT'', ''ALIGN'', ''MASK''}
     \<and> process_define st name value_str comment =
         Inr (consume_description
               (if suf = ''SHIFT''
                then st\<lparr>fields_info := set_bitOffset (fields_info st) pfx v\<rparr>
                else if suf = ''BITS''
                then st\<lparr>fields_info := set_bitWidth (fields_info st) pfx v\<rparr>
                else st) pfx)"
proof -
  from process_define_field_prop [OF assms(1), of st value_str] obtain pfx suf where
    "name = pfx @ ''_'' @ suf" "suf \<in> {''BITS'', ''SHIFT'', ''ALIGN'', ''MASK''}"
    "process_define st name value_str comment =
        (case int_base0 value_str of
           Inl e \<Rightarrow> Inl e
         | Inr v \<Rightarrow>
             Inr (consume_description
               (if suf = ''SHIFT''
                then st\<lparr>fields_info := set_bitOffset (fields_info st) pfx v\<rparr>
                else if suf = ''BITS''
                then st\<lparr>fields_info := set_bitWidth (fields_info st) pfx v\<rparr>
                else st) pfx))"
    by blast
  with assms(2) show ?thesis by (intro exI [of _ pfx] exI [of _ suf]) simp
qed

lemma process_define_field_prop_registers:
  assumes "is_field_prop name comment"
    and "process_define st name value_str comment = Inr st'"
  shows "registers_info st' = registers_info st"
proof (cases "int_base0 value_str")
  case (Inl e)
  with process_define_field_prop_Inl [OF assms(1) Inl, of st] assms(2) show ?thesis by simp
next
  case (Inr v)
  from process_define_field_prop_Inr [OF assms(1) Inr, of st] assms(2) show ?thesis by auto
qed


lemma parse_lines_append:
  "parse_lines st (xs @ ys) =
     (case parse_lines st xs of Inl e \<Rightarrow> Inl e | Inr st1 \<Rightarrow> parse_lines st1 ys)"
  by (induction xs arbitrary: st) (auto split: sum.splits)

text \<open>A line raises exactly when it is a field-property define with a refused literal.\<close>

lemma handle_define_result:
  "handle_define st line = Inl e \<longleftrightarrow>
     (\<exists>name value_str comment. define_groups line = Some (name, value_str, comment)
        \<and> is_field_prop name comment \<and> int_base0 value_str = Inl e)"
proof (cases "define_groups line")
  case None
  then show ?thesis by (simp add: handle_define_def)
next
  case (Some g)
  obtain name value_str comment where g: "g = (name, value_str, comment)" by (cases g)
  note dg = Some [unfolded g]
  show ?thesis
  proof (cases "is_field_prop name comment")
    case True
    show ?thesis
    proof (cases "int_base0 value_str")
      case (Inl e')
      with process_define_field_prop_Inl [OF True Inl, of st] show ?thesis
        using dg True by (auto simp: handle_define_def)
    next
      case (Inr v)
      from process_define_field_prop_Inr [OF True Inr, of st] show ?thesis
        using dg True Inr by (auto simp: handle_define_def)
    qed
  next
    case False
    show ?thesis
    proof (cases "startswith value_str ''0x''")
      case True
      with process_define_register [OF dg False True, of st] show ?thesis
        using dg False by (simp add: handle_define_def)
    next
      case nohex: False
      with process_define_ignored [OF False nohex, of st] show ?thesis
        using dg False by (simp add: handle_define_def)
    qed
  qed
qed

lemma parse_line_raises:
  "(\<exists>e. parse_line st raw = Inl e) \<longleftrightarrow> bad_literal_line raw"
proof -
  have "(\<exists>e. parse_line st raw = Inl e) \<longleftrightarrow>
      (\<exists>e st0. handle_define st0 (strip raw) = Inl e
         \<and> st0 = (if \<not> (startswith (strip raw) ''#define'' \<or> startswith (strip raw) ''/*''
                         \<or> strip raw = [])
                  then st\<lparr>last_field_info := None\<rparr> else st))"
    by (auto simp: parse_line_def Let_def split: sum.splits)
  also have "\<dots> \<longleftrightarrow> bad_literal_line raw"
    unfolding handle_define_result bad_literal_line_def
    by (auto split: option.splits simp: isl_def)
  finally show ?thesis .
qed

lemma parse_line_only_ValueError:
  "parse_line st raw = Inl e \<Longrightarrow> e = ValueError"
proof -
  assume "parse_line st raw = Inl e"
  then obtain st0 where "handle_define st0 (strip raw) = Inl e"
    by (auto simp: parse_line_def Let_def split: sum.splits)
  then obtain value_str where "int_base0 value_str = Inl e"
    unfolding handle_define_result by blast
  then show ?thesis by (auto simp: int_base0_def split: if_splits)
qed

lemma parse_lines_total:
  "\<forall>l \<in> set ls. \<not> bad_literal_line l \<Longrightarrow> \<exists>st'. parse_lines st ls = Inr st'"
proof (induction ls arbitrary: st)
  case Nil
  then show ?case by simp
next
  case (Cons l ls)
  from Cons.prems have "\<not> bad_literal_line l" by simp
  then have "\<not> (\<exists>e. parse_line st l = Inl e)" by (simp add: parse_line_raises)
  then obtain st1 where "parse_line st l = Inr st1" by (cases "parse_line st l") auto
  with Cons.IH [of st1] Cons.prems show ?case by simp
qed

section \<open>The register table\<close>

lemma parse_line_registers_info:
  assumes "parse_line st raw = Inr st'"
  shows "registers_info st' =
     (case define_groups (strip raw) of
        None \<Rightarrow> registers_info st
      | Some (name, value_str, comment) \<Rightarrow>
          if \<not> is_field_prop name comment \<and> startswith value_str ''0x''
          then AList.update name
                 (RegAddrDesc (digits_to_int 16 (drop 2 value_str))
                    (case comment of None \<Rightarrow> name
                     | Some c \<Rightarrow> if c = [] then name else strip (remove_all c ''Register'')))
                 (registers_info st)
          else registers_info st)"
proof -
  let ?st0 = "if \<not> (startswith (strip raw) ''#define'' \<or> startswith (strip raw) ''/*''
                         \<or> strip raw = [])
                  then st\<lparr>last_field_info := None\<rparr> else st"
  have r0: "registers_info ?st0 = registers_info st" by simp
  from assms obtain st1 where h: "handle_define ?st0 (strip raw) = Inr st1"
    and st': "st' = handle_comment st1 (strip raw)"
    by (auto simp: parse_line_def Let_def split: sum.splits)
  show ?thesis
  proof (cases "define_groups (strip raw)")
    case None
    with h st' r0 show ?thesis by (simp add: handle_define_def)
  next
    case (Some g)
    obtain name value_str comment where g: "g = (name, value_str, comment)" by (cases g)
    note dg = Some [unfolded g]
    from h dg have pd: "process_define ?st0 name value_str comment = Inr st1"
      by (simp add: handle_define_def)
    show ?thesis
    proof (cases "is_field_prop name comment")
      case True
      from process_define_field_prop_registers [OF True pd] st' dg True r0
      show ?thesis by simp
    next
      case False
      show ?thesis
      proof (cases "startswith value_str ''0x''")
        case True
        from process_define_register [OF dg False True, of ?st0] pd
        have "registers_info st1 = AList.update name
                 (RegAddrDesc (digits_to_int 16 (drop 2 value_str))
                    (case comment of None \<Rightarrow> name
                     | Some c \<Rightarrow> if c = [] then name else strip (remove_all c ''Register'')))
                 (registers_info ?st0)"
          by auto
        with st' dg False True r0 show ?thesis by simp
      next
        case nohex: False
        from process_define_ignored [OF False nohex, of ?st0] pd have "st1 = ?st0" by simp
        with st' dg False nohex r0 show ?thesis by simp
      qed
    qed
  qed
qed


lemma parse_line_distinct_registers:
  assumes "parse_line st raw = Inr st'" and "distinct (map fst (registers_info st))"
  shows "distinct (map fst (registers_info st'))"
  unfolding parse_line_registers_info [OF assms(1)]
  using assms(2) by (auto split: option.splits simp: AList.distinct_update)

lemma parse_lines_distinct_registers:
  "parse_lines st ls = Inr st' \<Longrightarrow> distinct (map fst (registers_info st))
     \<Longrightarrow> distinct (map fst (registers_info st'))"
proof (induction ls arbitrary: st)
  case Nil
  then show ?case by simp
next
  case (Cons l ls)
  from Cons.prems(1) obtain st1 where
    "parse_line st l = Inr st1" "parse_lines st1 ls = Inr st'"
    by (auto split: sum.splits)
  with Cons.IH [of st1] Cons.prems(2) parse_line_distinct_registers show ?case by blast
qed

lemma parse_line_other_register:
  assumes "parse_line st raw = Inr st'" and "\<not> register_line raw name"
  shows "map_of (registers_info st') name = map_of (registers_info st) name"
  unfolding parse_line_registers_info [OF assms(1)]
  using assms(2)
  by (auto simp: register_line_def AList.update_conv' split: option.splits)

lemma parse_lines_other_register:
  "parse_lines st ls = Inr st' \<Longrightarrow> \<forall>l \<in> set ls. \<not> register_line l name
     \<Longrightarrow> map_of (registers_info st') name = map_of (registers_info st) name"
proof (induction ls arbitrary: st)
  case Nil
  then show ?case by simp
next
  case (Cons l ls)
  from Cons.prems(1) obtain st1 where
    s: "parse_line st l = Inr st1" "parse_lines st1 ls = Inr st'"
    by (auto split: sum.splits)
  from Cons.IH [OF s(2)] Cons.prems(2) parse_line_other_register [OF s(1), of name]
  show ?case by simp
qed

lemma register_line_not_bad:
  "define_groups (strip raw) = Some (name, value_str, comment) \<Longrightarrow> \<not> is_field_prop name comment
     \<Longrightarrow> \<not> bad_literal_line raw"
  by (simp add: bad_literal_line_def)

text \<open>
  C9.  Let the header have two register-definition lines for the same macro name, the
  second one being the last register definition of that name, and no field-property
  define with a literal that \<open>int\<close> refuses.  Then \<open>parse_header_lines\<close> returns, the
  register table holds for the name the address and the description of the second line,
  and it holds the name once.
\<close>

theorem C9_last_definition_wins:
  assumes l1: "define_groups (strip l1) = Some (name, vs1, c1)"
      "\<not> is_field_prop name c1" "startswith vs1 ''0x''"
    and l2: "define_groups (strip l2) = Some (name, vs2, c2)"
      "\<not> is_field_prop name c2" "startswith vs2 ''0x''"
    and post: "\<forall>l \<in> set post. \<not> register_line l name"
    and ok: "\<forall>l \<in> set (pre @ mid @ post). \<not> bad_literal_line l"
  shows "\<exists>ph. parse_header_lines (pre @ [l1] @ mid @ [l2] @ post) = Inr ph
     \<and> map_of (registers_info ph) name =
         Some (RegAddrDesc (digits_to_int 16 (drop 2 vs2))
                 (case c2 of None \<Rightarrow> name
                  | Some c \<Rightarrow> if c = [] then name else strip (remove_all c ''Register'')))
     \<and> distinct (map fst (registers_info ph))"
proof -
  have "\<forall>l \<in> set (pre @ [l1] @ mid @ [l2] @ post). \<not> bad_literal_line l"
    using ok register_line_not_bad [OF l1(1,2)] register_line_not_bad [OF l2(1,2)] by auto
  from parse_lines_total [OF this, of init_state] obtain st' where
    run: "parse_lines init_state ((pre @ [l1] @ mid) @ [l2] @ post) = Inr st'" by auto
  then obtain st1 where
    a: "parse_lines init_state (pre @ [l1] @ mid) = Inr st1"
    and b: "parse_lines st1 ([l2] @ post) = Inr st'"
    unfolding parse_lines_append [of init_state "pre @ [l1] @ mid"]
    by (auto split: sum.splits)
  from b obtain st2 where
    c: "parse_line st1 l2 = Inr st2" and d: "parse_lines st2 post = Inr st'"
    by (auto split: sum.splits)
  have "map_of (registers_info st2) name =
         Some (RegAddrDesc (digits_to_int 16 (drop 2 vs2))
                 (case c2 of None \<Rightarrow> name
                  | Some c \<Rightarrow> if c = [] then name else strip (remove_all c ''Register'')))"
    unfolding parse_line_registers_info [OF c] using l2
    by (simp add: AList.update_conv')
  with parse_lines_other_register [OF d post]
  have e: "map_of (registers_info st') name =
         Some (RegAddrDesc (digits_to_int 16 (drop 2 vs2))
                 (case c2 of None \<Rightarrow> name
                  | Some c \<Rightarrow> if c = [] then name else strip (remove_all c ''Register'')))"
    by simp
  have f: "distinct (map fst (registers_info st'))"
    using parse_lines_distinct_registers [OF run] by (simp add: init_state_def)
  have "parse_header_lines (pre @ [l1] @ mid @ [l2] @ post) = Inr (ParsedHeader.truncate st')"
    using run by (simp add: parse_header_lines_def)
  moreover have "registers_info (ParsedHeader.truncate st') = registers_info st'"
    by (simp add: ParsedHeader.truncate_def)
  ultimately show ?thesis using e f by auto
qed

theorem C9_last_definition_wins_witness:
  "define_groups (strip ''#define P_R 0x10 /* first */'') = Some (''P_R'', ''0x10'', Some ''first'')
   \<and> define_groups (strip ''#define P_R 0x20 /* second */'') = Some (''P_R'', ''0x20'', Some ''second'')
   \<and> (\<exists>ph. parse_header_lines
         ([] @ [''#define P_R 0x10 /* first */''] @ [''#define P_R_F_SHIFT 1'']
            @ [''#define P_R 0x20 /* second */''] @ [''#define P_Q 0x30''])
         = Inr ph
       \<and> map_of (registers_info ph) ''P_R'' = Some (RegAddrDesc 0x20 ''second''))"
proof -
  have g1: "define_groups (strip ''#define P_R 0x10 /* first */'')
      = Some (''P_R'', ''0x10'', Some ''first'')" by code_simp
  have g2: "define_groups (strip ''#define P_R 0x20 /* second */'')
      = Some (''P_R'', ''0x20'', Some ''second'')" by code_simp
  have n: "\<not> is_field_prop ''P_R'' (Some ''first'')" "\<not> is_field_prop ''P_R'' (Some ''second'')"
    by code_simp+
  have h: "startswith ''0x10'' ''0x''" "startswith ''0x20'' ''0x''" by code_simp+
  have post: "\<forall>l \<in> set [''#define P_Q 0x30'']. \<not> register_line l ''P_R''" by code_simp
  have ok: "\<forall>l \<in> set ([] @ [''#define P_R_F_SHIFT 1''] @ [''#define P_Q 0x30'']).
      \<not> bad_literal_line l" by code_simp
  have v: "digits_to_int 16 ''20'' = 0x20" by code_simp
  have d: "strip (remove_all ''second'' ''Register'') = ''second''" by code_simp
  from C9_last_definition_wins [OF g1 n(1) h(1) g2 n(2) h(2) post ok]
  have "\<exists>ph. parse_header_lines
         ([] @ [''#define P_R 0x10 /* first */''] @ [''#define P_R_F_SHIFT 1'']
            @ [''#define P_R 0x20 /* second */''] @ [''#define P_Q 0x30''])
         = Inr ph
       \<and> map_of (registers_info ph) ''P_R'' = Some (RegAddrDesc 0x20 ''second'')"
    by (auto simp: v d)
  with g1 g2 show ?thesis by blast
qed

section \<open>The table of field descriptions\<close>

lemma consume_description_keeps:
  "map_of (field_descriptions st) p = Some d
     \<Longrightarrow> map_of (field_descriptions (consume_description st q)) p = Some d"
  by (auto simp: consume_description_def AList.update_conv' split: option.splits)

lemma consume_description_recorded:
  assumes "last_field_info st = Some (key_base, d2)" and "startswith p key_base"
    and "map_of (field_descriptions st) p = Some d"
  shows "consume_description st p = st\<lparr>last_field_info := None\<rparr>"
  using assms by (simp add: consume_description_def)

lemma process_define_keeps:
  assumes "process_define st name value_str comment = Inr st'"
    and "map_of (field_descriptions st) p = Some d"
  shows "map_of (field_descriptions st') p = Some d"
proof (cases "is_field_prop name comment")
  case True
  show ?thesis
  proof (cases "int_base0 value_str")
    case (Inl e)
    with process_define_field_prop_Inl [OF True Inl, of st] assms(1) show ?thesis by simp
  next
    case (Inr v)
    from process_define_field_prop_Inr [OF True Inr, of st] obtain pfx suf where
      pd: "process_define st name value_str comment =
         Inr (consume_description
               (if suf = ''SHIFT''
                then st\<lparr>fields_info := set_bitOffset (fields_info st) pfx v\<rparr>
                else if suf = ''BITS''
                then st\<lparr>fields_info := set_bitWidth (fields_info st) pfx v\<rparr>
                else st) pfx)"
      by blast
    let ?st1 = "if suf = ''SHIFT''
                then st\<lparr>fields_info := set_bitOffset (fields_info st) pfx v\<rparr>
                else if suf = ''BITS''
                then st\<lparr>fields_info := set_bitWidth (fields_info st) pfx v\<rparr>
                else st"
    have "map_of (field_descriptions ?st1) p = Some d" using assms(2) by simp
    from consume_description_keeps [OF this, of pfx] pd assms(1) show ?thesis by simp
  qed
next
  case False
  with assms show ?thesis
    by (auto simp: process_define_def split: if_splits sum.splits)
qed

lemma parse_line_keeps:
  assumes "parse_line st raw = Inr st'"
    and "map_of (field_descriptions st) p = Some d"
  shows "map_of (field_descriptions st') p = Some d"
proof -
  let ?st0 = "if \<not> (startswith (strip raw) ''#define'' \<or> startswith (strip raw) ''/*''
                         \<or> strip raw = [])
                  then st\<lparr>last_field_info := None\<rparr> else st"
  have f0: "field_descriptions ?st0 = field_descriptions st" by simp
  from assms(1) obtain st1 where h: "handle_define ?st0 (strip raw) = Inr st1"
    and st': "st' = handle_comment st1 (strip raw)"
    by (auto simp: parse_line_def Let_def split: sum.splits)
  have "map_of (field_descriptions st1) p = Some d"
  proof (cases "define_groups (strip raw)")
    case None
    with h f0 assms(2) show ?thesis by (simp add: handle_define_def)
  next
    case (Some g)
    obtain name value_str comment where g: "g = (name, value_str, comment)" by (cases g)
    from h Some g have "process_define ?st0 name value_str comment = Inr st1"
      by (simp add: handle_define_def)
    from process_define_keeps [OF this, of p d] f0 assms(2) show ?thesis by simp
  qed
  with st' show ?thesis by simp
qed

lemma parse_lines_keeps:
  "parse_lines st ls = Inr st' \<Longrightarrow> map_of (field_descriptions st) p = Some d
     \<Longrightarrow> map_of (field_descriptions st') p = Some d"
proof (induction ls arbitrary: st)
  case Nil
  then show ?case by simp
next
  case (Cons l ls)
  from Cons.prems(1) obtain st1 where
    s: "parse_line st l = Inr st1" "parse_lines st1 ls = Inr st'"
    by (auto split: sum.splits)
  from Cons.IH [OF s(2)] parse_line_keeps [OF s(1) Cons.prems(2)] show ?case by simp
qed

text \<open>
  C10.  Let the table of field descriptions hold a description for a prefix.  Whatever
  lines follow, if the loop returns the table still holds that description for the prefix.
  In particular, when a pending context matches the prefix, consuming it leaves the state
  as it is but for the pending context, which is cleared; and a field-property define
  for the prefix with a literal that reads does this: it returns with the table of
  descriptions as it was and without pending context.
\<close>

theorem C10_first_description_wins:
  assumes "map_of (field_descriptions st) pfx = Some d"
  shows "(\<forall>ls st'. parse_lines st ls = Inr st' \<longrightarrow> map_of (field_descriptions st') pfx = Some d)
    \<and> (\<forall>key_base d2. last_field_info st = Some (key_base, d2) \<and> startswith pfx key_base
          \<longrightarrow> consume_description st pfx = st\<lparr>last_field_info := None\<rparr>
            \<and> (\<forall>suf value_str comment v.
                  suf \<in> {''BITS'', ''SHIFT'', ''ALIGN'', ''MASK''}
                  \<and> is_field_prop (pfx @ ''_'' @ suf) comment \<and> int_base0 value_str = Inr v
                  \<longrightarrow> (\<exists>st'. process_define st (pfx @ ''_'' @ suf) value_str comment = Inr st'
                         \<and> field_descriptions st' = field_descriptions st
                         \<and> last_field_info st' = None)))"
proof (intro conjI allI impI)
  fix ls st'
  assume "parse_lines st ls = Inr st'"
  from parse_lines_keeps [OF this assms] show "map_of (field_descriptions st') pfx = Some d" .
next
  fix key_base d2
  assume p: "last_field_info st = Some (key_base, d2) \<and> startswith pfx key_base"
  then show "consume_description st pfx = st\<lparr>last_field_info := None\<rparr>"
    using consume_description_recorded assms by blast
next
  fix key_base d2 suf value_str comment v
  assume p: "last_field_info st = Some (key_base, d2) \<and> startswith pfx key_base"
    and q: "suf \<in> {''BITS'', ''SHIFT'', ''ALIGN'', ''MASK''}
          \<and> is_field_prop (pfx @ ''_'' @ suf) comment \<and> int_base0 value_str = Inr v"
  let ?st1 = "if suf = ''SHIFT''
              then st\<lparr>fields_info := set_bitOffset (fields_info st) pfx v\<rparr>
              else if suf = ''BITS''
              then st\<lparr>fields_info := set_bitWidth (fields_info st) pfx v\<rparr>
              else st"
  from q have "rsplit_underscore (pfx @ ''_'' @ suf) = Some (pfx, suf)"
    by (intro rsplit_underscore_append) auto
  with q have pd: "process_define st (pfx @ ''_'' @ suf) value_str comment
      = Inr (consume_description ?st1 pfx)"
    by (simp add: process_define_def)
  have "last_field_info ?st1 = Some (key_base, d2)"
    and "map_of (field_descriptions ?st1) pfx = Some d"
    using p assms by simp_all
  from consume_description_recorded [OF this(1) _ this(2)] p
  have "consume_description ?st1 pfx = ?st1\<lparr>last_field_info := None\<rparr>" by simp
  with pd show "\<exists>st'. process_define st (pfx @ ''_'' @ suf) value_str comment = Inr st'
                         \<and> field_descriptions st' = field_descriptions st
                         \<and> last_field_info st' = None"
    by simp
qed

theorem C10_first_description_wins_witness:
  "parse_lines init_state [''/* P :: R :: first [1:0] */'', ''#define P_R_F_SHIFT 0'',
       ''/* P :: R :: second [1:0] */'']
     = Inr \<lparr>registers_info = [], fields_info = [(''P_R_F'', Props (Some 0) None)],
             field_descriptions = [(''P_R_F'', ''first'')],
             reg_fqn_to_periph = [(''P_R'', ''P'')], reg_fqn_to_regname = [(''P_R'', ''R'')],
             last_field_info = Some (''P_R_'', ''second'')\<rparr>
   \<and> parse_lines \<lparr>registers_info = [], fields_info = [(''P_R_F'', Props (Some 0) None)],
             field_descriptions = [(''P_R_F'', ''first'')],
             reg_fqn_to_periph = [(''P_R'', ''P'')], reg_fqn_to_regname = [(''P_R'', ''R'')],
             last_field_info = Some (''P_R_'', ''second'')\<rparr>
        [''#define P_R_F_BITS 2'']
     = Inr \<lparr>registers_info = [], fields_info = [(''P_R_F'', Props (Some 0) (Some 2))],
             field_descriptions = [(''P_R_F'', ''first'')],
             reg_fqn_to_periph = [(''P_R'', ''P'')], reg_fqn_to_regname = [(''P_R'', ''R'')],
             last_field_info = None\<rparr>
   \<and> map_of [(''P_R_F'', ''first'')] ''P_R_F'' = Some ''first''"
proof -
  let ?st = "\<lparr>registers_info = [], fields_info = [(''P_R_F'', Props (Some 0) None)],
             field_descriptions = [(''P_R_F'', ''first'')],
             reg_fqn_to_periph = [(''P_R'', ''P'')], reg_fqn_to_regname = [(''P_R'', ''R'')],
             last_field_info = Some (''P_R_'', ''second'')\<rparr>"
  let ?st' = "\<lparr>registers_info = [], fields_info = [(''P_R_F'', Props (Some 0) (Some 2))],
             field_descriptions = [(''P_R_F'', ''first'')],
             reg_fqn_to_periph = [(''P_R'', ''P'')], reg_fqn_to_regname = [(''P_R'', ''R'')],
             last_field_info = None\<rparr>"
  have a: "parse_lines init_state [''/* P :: R :: first [1:0] */'', ''#define P_R_F_SHIFT 0'',
       ''/* P :: R :: second [1:0] */''] = Inr ?st"
    by code_simp
  have b: "parse_lines ?st [''#define P_R_F_BITS 2''] = Inr ?st'"
    by code_simp
  have h: "map_of (field_descriptions ?st) ''P_R_F'' = Some ''first''" by simp
  from C10_first_description_wins [OF h] b
  have "map_of (field_descriptions ?st') ''P_R_F'' = Some ''first''" by blast
  with a b show ?thesis by simp
qed

section \<open>The table of field properties\<close>

lemma props_of_mem:
  "bitOffset (props_of fi pfx) = Some v \<Longrightarrow> \<exists>old. (pfx, old) \<in> set fi \<and> bitOffset old = Some v"
  "bitWidth (props_of fi pfx) = Some v \<Longrightarrow> \<exists>old. (pfx, old) \<in> set fi \<and> bitWidth old = Some v"
  by (auto simp: props_of_def split: option.splits dest: map_of_SomeD)

lemma props_from_lines_mono: "props_from_lines L fi \<Longrightarrow> L \<subseteq> L' \<Longrightarrow> props_from_lines L' fi"
  unfolding props_from_lines_def by blast

lemma props_from_lines_set_bitOffset:
  assumes "props_from_lines L fi" and "shift_line raw pfx v"
  shows "props_from_lines (insert raw L) (set_bitOffset fi pfx v)"
  unfolding props_from_lines_def
proof
  fix entry
  assume "entry \<in> set (set_bitOffset fi pfx v)"
  then have "entry = (pfx, Props (Some v) (bitWidth (props_of fi pfx))) \<or> entry \<in> set fi"
    using set_update_subset [of pfx _ fi] by (auto simp: set_bitOffset_def)
  then show "(\<forall>v. bitOffset (snd entry) = Some v \<longrightarrow> (\<exists>l \<in> insert raw L. shift_line l (fst entry) v))
        \<and> (\<forall>v. bitWidth (snd entry) = Some v \<longrightarrow> (\<exists>l \<in> insert raw L. bits_line l (fst entry) v))"
  proof
    assume e: "entry = (pfx, Props (Some v) (bitWidth (props_of fi pfx)))"
    have "\<exists>l \<in> insert raw L. bits_line l pfx w" if "bitWidth (props_of fi pfx) = Some w" for w
    proof -
      from props_of_mem(2) [OF that] obtain old where "(pfx, old) \<in> set fi" "bitWidth old = Some w"
        by blast
      with assms(1) show ?thesis unfolding props_from_lines_def by fastforce
    qed
    with e assms(2) show ?thesis by auto
  next
    assume "entry \<in> set fi"
    with assms(1) show ?thesis unfolding props_from_lines_def by blast
  qed
qed

lemma props_from_lines_set_bitWidth:
  assumes "props_from_lines L fi" and "bits_line raw pfx v"
  shows "props_from_lines (insert raw L) (set_bitWidth fi pfx v)"
  unfolding props_from_lines_def
proof
  fix entry
  assume "entry \<in> set (set_bitWidth fi pfx v)"
  then have "entry = (pfx, Props (bitOffset (props_of fi pfx)) (Some v)) \<or> entry \<in> set fi"
    using set_update_subset [of pfx _ fi] by (auto simp: set_bitWidth_def)
  then show "(\<forall>v. bitOffset (snd entry) = Some v \<longrightarrow> (\<exists>l \<in> insert raw L. shift_line l (fst entry) v))
        \<and> (\<forall>v. bitWidth (snd entry) = Some v \<longrightarrow> (\<exists>l \<in> insert raw L. bits_line l (fst entry) v))"
  proof
    assume e: "entry = (pfx, Props (bitOffset (props_of fi pfx)) (Some v))"
    have "\<exists>l \<in> insert raw L. shift_line l pfx w" if "bitOffset (props_of fi pfx) = Some w" for w
    proof -
      from props_of_mem(1) [OF that] obtain old where "(pfx, old) \<in> set fi" "bitOffset old = Some w"
        by blast
      with assms(1) show ?thesis unfolding props_from_lines_def by fastforce
    qed
    with e assms(2) show ?thesis by auto
  next
    assume "entry \<in> set fi"
    with assms(1) show ?thesis unfolding props_from_lines_def by blast
  qed
qed

lemma parse_line_props_from_lines:
  assumes "parse_line st raw = Inr st'" and "props_from_lines L (fields_info st)"
  shows "props_from_lines (insert raw L) (fields_info st')"
proof -
  let ?st0 = "if \<not> (startswith (strip raw) ''#define'' \<or> startswith (strip raw) ''/*''
                         \<or> strip raw = [])
                  then st\<lparr>last_field_info := None\<rparr> else st"
  have f0: "fields_info ?st0 = fields_info st" by simp
  from assms(1) obtain st1 where h: "handle_define ?st0 (strip raw) = Inr st1"
    and st': "st' = handle_comment st1 (strip raw)"
    by (auto simp: parse_line_def Let_def split: sum.splits)
  have same: "props_from_lines (insert raw L) (fields_info st)"
    using props_from_lines_mono [OF assms(2), of "insert raw L"] by blast
  have "props_from_lines (insert raw L) (fields_info st1)"
  proof (cases "define_groups (strip raw)")
    case None
    with h f0 same show ?thesis by (auto simp: handle_define_def)
  next
    case (Some g)
    obtain name value_str comment where g: "g = (name, value_str, comment)" by (cases g)
    note dg = Some [unfolded g]
    from h dg have pd: "process_define ?st0 name value_str comment = Inr st1"
      by (simp add: handle_define_def)
    show ?thesis
    proof (cases "is_field_prop name comment")
      case False
      with pd f0 same show ?thesis
        by (auto simp: process_define_def split: if_splits sum.splits)
    next
      case True
      show ?thesis
      proof (cases "int_base0 value_str")
        case (Inl e)
        with process_define_field_prop_Inl [OF True Inl, of ?st0] pd show ?thesis by simp
      next
        case (Inr v)
        from process_define_field_prop_Inr [OF True Inr, of ?st0] obtain pfx suf where
          n: "name = pfx @ ''_'' @ suf"
          and pd': "process_define ?st0 name value_str comment =
             Inr (consume_description
               (if suf = ''SHIFT''
                then ?st0\<lparr>fields_info := set_bitOffset (fields_info ?st0) pfx v\<rparr>
                else if suf = ''BITS''
                then ?st0\<lparr>fields_info := set_bitWidth (fields_info ?st0) pfx v\<rparr>
                else ?st0) pfx)"
          by blast
        from pd pd' have fi1: "fields_info st1 =
            (if suf = ''SHIFT'' then set_bitOffset (fields_info st) pfx v
             else if suf = ''BITS'' then set_bitWidth (fields_info st) pfx v
             else fields_info st)"
          by (auto simp del: process_define_def)
        consider "suf = ''SHIFT''" | "suf = ''BITS''" | "suf \<noteq> ''SHIFT''" "suf \<noteq> ''BITS''"
          by blast
        then show ?thesis
        proof cases
          case 1
          with n dg Inr have "shift_line raw pfx v" by (simp add: shift_line_def)
          from props_from_lines_set_bitOffset [OF assms(2) this] fi1 1 show ?thesis by simp
        next
          case 2
          with n dg Inr have "bits_line raw pfx v" by (simp add: bits_line_def)
          from props_from_lines_set_bitWidth [OF assms(2) this] fi1 2 show ?thesis by simp
        next
          case 3
          with fi1 same show ?thesis by auto
        qed
      qed
    qed
  qed
  with st' show ?thesis by simp
qed

lemma parse_lines_props_from_lines:
  "parse_lines st ls = Inr st' \<Longrightarrow> props_from_lines L (fields_info st)
     \<Longrightarrow> props_from_lines (L \<union> set ls) (fields_info st')"
proof (induction ls arbitrary: st L)
  case Nil
  then show ?case by simp
next
  case (Cons l ls)
  from Cons.prems(1) obtain st1 where
    s: "parse_line st l = Inr st1" "parse_lines st1 ls = Inr st'"
    by (auto split: sum.splits)
  from Cons.IH [OF s(2) parse_line_props_from_lines [OF s(1) Cons.prems(2)]]
  show ?case by simp
qed

lemma parse_header_lines_props:
  assumes "parse_header_lines ls = Inr ph"
  shows "props_from_lines (set ls) (fields_info ph)"
proof -
  from assms obtain st where run: "parse_lines init_state ls = Inr st"
    and ph: "ph = ParsedHeader.truncate st"
    by (auto simp: parse_header_lines_def split: sum.splits)
  have "props_from_lines {} (fields_info init_state)"
    by (simp add: props_from_lines_def init_state_def)
  from parse_lines_props_from_lines [OF run this] show ?thesis
    by (simp add: ph ParsedHeader.truncate_def)
qed

lemma shift_line_nonneg: "shift_line l pfx v \<Longrightarrow> 0 \<le> v"
  by (auto simp: shift_line_def int_base0_nonneg split: option.splits)

lemma bits_line_nonneg: "bits_line l pfx v \<Longrightarrow> 0 \<le> v"
  by (auto simp: bits_line_def int_base0_nonneg split: option.splits)

text \<open>Every field of the tree of a header has its offset and width from two of its lines.\<close>

lemma header_field_provenance:
  assumes run: "parse_header_to_device_tree ls dn dd = Inr (ws, d)"
    and p: "(pn, p) \<in> set (peripherals d)"
    and r: "(rn, r) \<in> set (registers p)"
    and f: "f \<in> set (r_fields r)"
  shows "\<exists>macro. (\<exists>l \<in> set ls. shift_line l (macro @ ''_'' @ f_name f) (bit_offset f))
           \<and> (\<exists>l \<in> set ls. bits_line l (macro @ ''_'' @ f_name f) (bit_width f))"
proof -
  from run obtain ph where ph: "parse_header_lines ls = Inr ph"
    and d: "d = build_device_tree dn dd
          (fst (group_registers_by_peripheral (registers_info ph) (reg_fqn_to_periph ph)
                  (reg_fqn_to_regname ph)))
          (fields_info ph) (field_descriptions ph)"
    by (auto simp: parse_header_to_device_tree_def Let_def split: sum.splits)
  from tree_field_provenance [OF p [unfolded d] r f] obtain reg_info entry where
    e: "entry \<in> set (fields_info ph)" "fst entry = reg_define reg_info @ ''_'' @ f_name f"
       "bitOffset (snd entry) = Some (bit_offset f)" "bitWidth (snd entry) = Some (bit_width f)"
    by blast
  from parse_header_lines_props [OF ph] e show ?thesis
    unfolding props_from_lines_def by (intro exI [of _ "reg_define reg_info"]) fastforce
qed


lemma header_register_size:
  assumes run: "parse_header_to_device_tree ls dn dd = Inr (ws, d)"
    and p: "(pn, p) \<in> set (peripherals d)"
    and r: "(rn, r) \<in> set (registers p)"
  shows "r_size r = 32"
proof -
  from run obtain pers fi fd where d: "d = build_device_tree dn dd pers fi fd"
    by (auto simp: parse_header_to_device_tree_def Let_def split: sum.splits)
  from peripheral_provenance [OF p [unfolded d]] obtain regs where
    "p = build_peripheral (collect_reg_fqns pers) fi fd pn regs" by blast
  with register_provenance [of rn r "collect_reg_fqns pers" fi fd pn regs] r
  show ?thesis by (auto simp: build_register_def)
qed

section \<open>Bit offsets and bit widths\<close>

text \<open>
  C3, refuted as stated.  A header that defines \<open>P_R_F_SHIFT\<close> as 40 and \<open>P_R_F_BITS\<close>
  as 0 gives a field with bit offset 40 and bit width 0: the offset is above 31, the width
  is below 1 and the field does not fit the 32 bits of the register.
\<close>

theorem C3_counterexample:
  "parse_header_to_device_tree
     [''/* P :: R */'', ''#define P_R 0x10'', ''#define P_R_F_SHIFT 40'', ''#define P_R_F_BITS 0'']
     ''Device Name'' ''Device Description''
   = Inr ([], Device ''Device Name'' ''Device Description''
            [(''P'', Peripheral ''P'' 0x10 ''P Peripheral''
                [(''R'', Register ''R'' ''P_R'' 0 32 [Field ''F'' ''F'' 40 0])])])
   \<and> \<not> bit_offset (Field ''F'' ''F'' 40 0) \<le> 31
   \<and> \<not> 1 \<le> bit_width (Field ''F'' ''F'' 40 0)
   \<and> \<not> bit_offset (Field ''F'' ''F'' 40 0) + bit_width (Field ''F'' ''F'' 40 0) \<le> 32"
  by code_simp

text \<open>
  C3, amended.  In the tree that the conversion returns for a header, every register has
  size 32 and every field has a bit offset and a bit width that are not negative.  The
  conversion puts no upper bound on the offset, no lower bound above zero on the width,
  and does not compare their sum with the size of the register.
\<close>

theorem C3_field_bounds:
  assumes "parse_header_to_device_tree ls dn dd = Inr (ws, d)"
    and "(pn, p) \<in> set (peripherals d)"
    and "(rn, r) \<in> set (registers p)"
  shows "r_size r = 32 \<and> (\<forall>f \<in> set (r_fields r). 0 \<le> bit_offset f \<and> 0 \<le> bit_width f)"
proof (intro conjI ballI)
  show "r_size r = 32" using header_register_size [OF assms] .
next
  fix f assume "f \<in> set (r_fields r)"
  from header_field_provenance [OF assms this] obtain pfx l1 l2 where
    "shift_line l1 pfx (bit_offset f)" "bits_line l2 pfx (bit_width f)" by blast
  then show "0 \<le> bit_offset f" and "0 \<le> bit_width f"
    using shift_line_nonneg bits_line_nonneg by blast+
qed

theorem C3_field_bounds_witness:
  "parse_header_to_device_tree
     [''/* P :: R */'', ''#define P_R 0x10'', ''#define P_R_F_SHIFT 40'', ''#define P_R_F_BITS 0'']
     ''Device Name'' ''Device Description''
   = Inr ([], Device ''Device Name'' ''Device Description''
            [(''P'', Peripheral ''P'' 0x10 ''P Peripheral''
                [(''R'', Register ''R'' ''P_R'' 0 32 [Field ''F'' ''F'' 40 0])])])
   \<and> r_size (Register ''R'' ''P_R'' 0 32 [Field ''F'' ''F'' 40 0]) = 32
   \<and> 0 \<le> bit_offset (Field ''F'' ''F'' 40 0) \<and> 0 \<le> bit_width (Field ''F'' ''F'' 40 0)"
proof -
  let ?r = "Register ''R'' ''P_R'' 0 32 [Field ''F'' ''F'' 40 0]"
  let ?p = "Peripheral ''P'' 0x10 ''P Peripheral'' [(''R'', ?r)]"
  let ?d = "Device ''Device Name'' ''Device Description'' [(''P'', ?p)]"
  have run: "parse_header_to_device_tree
     [''/* P :: R */'', ''#define P_R 0x10'', ''#define P_R_F_SHIFT 40'', ''#define P_R_F_BITS 0'']
     ''Device Name'' ''Device Description'' = Inr ([], ?d)"
    by code_simp
  have p: "(''P'', ?p) \<in> set (peripherals ?d)" by simp
  have r: "(''R'', ?r) \<in> set (registers ?p)" by simp
  from C3_field_bounds [OF run p r] run show ?thesis by simp
qed

section \<open>Fields with both properties\<close>

text \<open>
  C6.  Every field of the tree that the conversion returns for a header has its bit
  offset from a \<open>_SHIFT\<close> define and its bit width from a \<open>_BITS\<close> define of the header,
  both for the prefix made of a register macro, an underscore and the name of the field.
  An entry of the field-property table that lacks the offset or the width adds no field
  to any register, and \<open>build_device_tree\<close>, which neither raises nor writes to the
  error stream, returns the tree it returns for the table without such entries.
\<close>

theorem C6_complete_fields:
  "(parse_header_to_device_tree ls dn dd = Inr (ws, d)
      \<longrightarrow> (\<forall>(pn, p) \<in> set (peripherals d). \<forall>(rn, r) \<in> set (registers p). \<forall>f \<in> set (r_fields r).
             \<exists>macro. (\<exists>l \<in> set ls. shift_line l (macro @ ''_'' @ f_name f) (bit_offset f))
                   \<and> (\<exists>l \<in> set ls. bits_line l (macro @ ''_'' @ f_name f) (bit_width f))))
   \<and> (bitOffset props = None \<or> bitWidth props = None
        \<longrightarrow> field_of_entry all_reg_fqns fd rd (pfx, props) = [])
   \<and> build_device_tree dn dd pers
        (filter (\<lambda>entry. bitOffset (snd entry) \<noteq> None \<and> bitWidth (snd entry) \<noteq> None) fi) fd
      = build_device_tree dn dd pers fi fd"
proof (intro conjI impI)
  assume run: "parse_header_to_device_tree ls dn dd = Inr (ws, d)"
  show "\<forall>(pn, p) \<in> set (peripherals d). \<forall>(rn, r) \<in> set (registers p). \<forall>f \<in> set (r_fields r).
             \<exists>macro. (\<exists>l \<in> set ls. shift_line l (macro @ ''_'' @ f_name f) (bit_offset f))
                   \<and> (\<exists>l \<in> set ls. bits_line l (macro @ ''_'' @ f_name f) (bit_width f))"
    using header_field_provenance [OF run] by (intro ballI) (simp add: split_paired_all)
next
  assume "bitOffset props = None \<or> bitWidth props = None"
  then show "field_of_entry all_reg_fqns fd rd (pfx, props) = []"
    by (intro field_of_entry_incomplete) simp
next
  show "build_device_tree dn dd pers
        (filter (\<lambda>entry. bitOffset (snd entry) \<noteq> None \<and> bitWidth (snd entry) \<noteq> None) fi) fd
      = build_device_tree dn dd pers fi fd"
    by (rule build_device_tree_filter)
qed

theorem C6_complete_fields_witness:
  "parse_header_to_device_tree
     [''/* P :: R */'', ''#define P_R 0x10'', ''#define P_R_F_SHIFT 3'', ''#define P_R_F_BITS 2'',
      ''#define P_R_G_SHIFT 5'']
     ''Device Name'' ''Device Description''
   = Inr ([], Device ''Device Name'' ''Device Description''
            [(''P'', Peripheral ''P'' 0x10 ''P Peripheral''
                [(''R'', Register ''R'' ''P_R'' 0 32 [Field ''F'' ''F'' 3 2])])])
   \<and> (\<exists>macro.
        (\<exists>l \<in> set [''/* P :: R */'', ''#define P_R 0x10'', ''#define P_R_F_SHIFT 3'',
                     ''#define P_R_F_BITS 2'', ''#define P_R_G_SHIFT 5''].
            shift_line l (macro @ ''_'' @ ''F'') 3)
        \<and> (\<exists>l \<in> set [''/* P :: R */'', ''#define P_R 0x10'', ''#define P_R_F_SHIFT 3'',
                     ''#define P_R_F_BITS 2'', ''#define P_R_G_SHIFT 5''].
            bits_line l (macro @ ''_'' @ ''F'') 2))
   \<and> field_of_entry [''P_R''] [] ''P_R'' (''P_R_G'', Props (Some 5) None) = []"
proof -
  let ?ls = "[''/* P :: R */'', ''#define P_R 0x10'', ''#define P_R_F_SHIFT 3'',
              ''#define P_R_F_BITS 2'', ''#define P_R_G_SHIFT 5'']"
  let ?f = "Field ''F'' ''F'' 3 2"
  let ?r = "Register ''R'' ''P_R'' 0 32 [?f]"
  let ?p = "Peripheral ''P'' 0x10 ''P Peripheral'' [(''R'', ?r)]"
  let ?d = "Device ''Device Name'' ''Device Description'' [(''P'', ?p)]"
  have run: "parse_header_to_device_tree ?ls ''Device Name'' ''Device Description'' = Inr ([], ?d)"
    by code_simp
  note T = C6_complete_fields [of ?ls "''Device Name''" "''Device Description''" "[]" ?d
      "Props (Some 5) None" "[''P_R'']" "[]" "''P_R''" "''P_R_G''"]
  from T run have "\<forall>(pn, p) \<in> set (peripherals ?d). \<forall>(rn, r) \<in> set (registers p).
        \<forall>f \<in> set (r_fields r).
             \<exists>macro. (\<exists>l \<in> set ?ls. shift_line l (macro @ ''_'' @ f_name f) (bit_offset f))
                   \<and> (\<exists>l \<in> set ?ls. bits_line l (macro @ ''_'' @ f_name f) (bit_width f))"
    by blast
  then have a: "\<exists>macro. (\<exists>l \<in> set ?ls. shift_line l (macro @ ''_'' @ ''F'') 3)
                   \<and> (\<exists>l \<in> set ?ls. bits_line l (macro @ ''_'' @ ''F'') 2)"
    by simp
  from T have b: "field_of_entry [''P_R''] [] ''P_R'' (''P_R_G'', Props (Some 5) None) = []"
    by simp
  from run a b show ?thesis by blast
qed

section \<open>Registers without a peripheral\<close>

lemma resolve_register_unmapped:
  assumes "\<forall>k \<in> fst ` set p2p. \<not> prefix k m"
  shows "fst (resolve_register p2p p2r m) = None"
proof -
  from assms have "m \<notin> fst ` set p2p" by auto
  then have direct: "map_of p2p m = None" by (simp add: map_of_eq_None_iff)
  from assms have "find (\<lambda>kv. startswith m (fst kv)) (longest_first p2p) = None"
    unfolding find_longest_first_None by auto
  with direct show ?thesis by (simp add: resolve_register_def truthy_def)
qed

lemma group_step_unmapped:
  assumes "\<forall>k \<in> fst ` set p2p. \<not> prefix k m"
  shows "group_step p2p p2r acc (m, rad) = (fst acc, snd acc @ [warning m])"
  using resolve_register_unmapped [OF assms, of p2r]
  by (cases "resolve_register p2p p2r m") (simp add: group_step_def)

text \<open>The groups after a step depend on the groups before it only; the warnings grow.\<close>

lemma group_step_fst:
  "fst acc = fst acc' \<Longrightarrow> fst (group_step p2p p2r acc e) = fst (group_step p2p p2r acc' e)"
  by (auto simp: group_step_def split: prod.splits option.splits)

lemma group_step_snd:
  "snd (group_step p2p p2r acc e) = snd acc
   \<or> snd (group_step p2p p2r acc e) = snd acc @ [warning (fst e)]"
  by (auto simp: group_step_def split: prod.splits option.splits)

lemma group_step_snd_rel:
  "(snd (group_step p2p p2r acc e) = snd acc \<and> snd (group_step p2p p2r acc' e) = snd acc')
   \<or> (snd (group_step p2p p2r acc e) = snd acc @ [warning (fst e)]
       \<and> snd (group_step p2p p2r acc' e) = snd acc' @ [warning (fst e)])"
  by (auto simp: group_step_def split: prod.splits option.splits)

lemma warning_inj: "warning a = warning b \<longleftrightarrow> a = b"
  by (simp add: warning_def)

lemma foldl_group_step_filter:
  assumes "\<forall>k \<in> fst ` set p2p. \<not> prefix k m"
  shows "fst acc = fst acc' \<Longrightarrow> filter (\<lambda>w. w \<noteq> warning m) (snd acc) = snd acc'
     \<Longrightarrow> fst (foldl (group_step p2p p2r) acc ri)
           = fst (foldl (group_step p2p p2r) acc' (filter (\<lambda>e. fst e \<noteq> m) ri))
         \<and> filter (\<lambda>w. w \<noteq> warning m) (snd (foldl (group_step p2p p2r) acc ri))
           = snd (foldl (group_step p2p p2r) acc' (filter (\<lambda>e. fst e \<noteq> m) ri))"
proof (induction ri arbitrary: acc acc')
  case Nil
  then show ?case by simp
next
  case (Cons e ri)
  show ?case
  proof (cases "fst e = m")
    case True
    then have "group_step p2p p2r acc e = (fst acc, snd acc @ [warning m])"
      using group_step_unmapped [OF assms, of p2r acc "snd e"] by (cases e) simp
    with Cons.IH [of "(fst acc, snd acc @ [warning m])" acc'] Cons.prems True
    show ?thesis by simp
  next
    case False
    have a: "fst (group_step p2p p2r acc e) = fst (group_step p2p p2r acc' e)"
      using Cons.prems(1) by (rule group_step_fst)
    have b: "filter (\<lambda>w. w \<noteq> warning m) (snd (group_step p2p p2r acc e))
             = snd (group_step p2p p2r acc' e)"
      using group_step_snd_rel [of p2p p2r acc e acc'] Cons.prems(2) False
      by (auto simp: warning_inj)
    from Cons.IH [OF a b] False show ?thesis by simp
  qed
qed

lemma foldl_group_step_warnings_grow:
  "set (snd acc) \<subseteq> set (snd (foldl (group_step p2p p2r) acc ri))"
proof (induction ri arbitrary: acc)
  case Nil
  then show ?case by simp
next
  case (Cons e ri)
  have "set (snd acc) \<subseteq> set (snd (group_step p2p p2r acc e))"
    using group_step_snd [of p2p p2r acc e] by auto
  with Cons.IH [of "group_step p2p p2r acc e"] show ?case by auto
qed

lemma foldl_group_step_warns:
  assumes "\<forall>k \<in> fst ` set p2p. \<not> prefix k m" and "(m, rad) \<in> set ri"
  shows "warning m \<in> set (snd (foldl (group_step p2p p2r) acc ri))"
  using assms(2)
proof (induction ri arbitrary: acc)
  case Nil
  then show ?case by simp
next
  case (Cons e ri)
  show ?case
  proof (cases "e = (m, rad)")
    case True
    then have "warning m \<in> set (snd (group_step p2p p2r acc e))"
      using group_step_unmapped [OF assms(1), of p2r acc rad] by simp
    with foldl_group_step_warnings_grow [of "group_step p2p p2r acc e" p2p p2r ri]
    show ?thesis by auto
  next
    case False
    with Cons.prems have "(m, rad) \<in> set ri" by simp
    from Cons.IH [OF this] show ?thesis by simp
  qed
qed

text \<open>Every register of a group comes from an entry of the register table.\<close>

lemma group_step_cases:
  "group_step p2p p2r acc e = (fst acc, snd acc @ [warning (fst e)])
   \<or> (\<exists>pn rn. group_step p2p p2r acc e =
        (AList.update pn
           ((case map_of (fst acc) pn of None \<Rightarrow> [] | Some rs \<Rightarrow> rs)
            @ [RegisterInfo rn (rad_addr (snd e))
                 (if rad_desc (snd e) = [] then rn else rad_desc (snd e)) (fst e)])
           (fst acc), snd acc))"
proof -
  obtain a b where rr: "resolve_register p2p p2r (fst e) = (a, b)"
    by (cases "resolve_register p2p p2r (fst e)")
  show ?thesis
  proof (cases a)
    case None
    with rr show ?thesis by (simp add: group_step_def)
  next
    case pn: (Some pn)
    show ?thesis
    proof (cases b)
      case None
      with rr pn show ?thesis by (simp add: group_step_def)
    next
      case rn: (Some rn)
      show ?thesis
      proof (cases "pn \<noteq> [] \<and> rn \<noteq> []")
        case True
        with rr pn rn have "group_step p2p p2r acc e =
          (AList.update pn
             ((case map_of (fst acc) pn of None \<Rightarrow> [] | Some rs \<Rightarrow> rs)
              @ [RegisterInfo rn (rad_addr (snd e))
                   (if rad_desc (snd e) = [] then rn else rad_desc (snd e)) (fst e)])
             (fst acc), snd acc)"
          by (simp add: group_step_def)
        then show ?thesis by blast
      next
        case False
        with rr pn rn have "group_step p2p p2r acc e = (fst acc, snd acc @ [warning (fst e)])"
          by (auto simp: group_step_def)
        then show ?thesis by blast
      qed
    qed
  qed
qed

lemma group_step_defines:
  assumes "(pn, regs) \<in> set (fst (group_step p2p p2r acc e))" and "reg_info \<in> set regs"
  shows "reg_define reg_info = fst e
         \<or> (\<exists>regs'. (pn, regs') \<in> set (fst acc) \<and> reg_info \<in> set regs')"
proof -
  from group_step_cases [of p2p p2r acc e] show ?thesis
  proof
    assume "group_step p2p p2r acc e = (fst acc, snd acc @ [warning (fst e)])"
    with assms show ?thesis by auto
  next
    assume "\<exists>pn rn. group_step p2p p2r acc e =
        (AList.update pn
           ((case map_of (fst acc) pn of None \<Rightarrow> [] | Some rs \<Rightarrow> rs)
            @ [RegisterInfo rn (rad_addr (snd e))
                 (if rad_desc (snd e) = [] then rn else rad_desc (snd e)) (fst e)])
           (fst acc), snd acc)"
    then obtain pn' rn where upd: "fst (group_step p2p p2r acc e) =
        AList.update pn'
          ((case map_of (fst acc) pn' of None \<Rightarrow> [] | Some rs \<Rightarrow> rs)
           @ [RegisterInfo rn (rad_addr (snd e))
                (if rad_desc (snd e) = [] then rn else rad_desc (snd e)) (fst e)])
          (fst acc)"
      by auto
    let ?new = "(case map_of (fst acc) pn' of None \<Rightarrow> [] | Some rs \<Rightarrow> rs)
           @ [RegisterInfo rn (rad_addr (snd e))
                (if rad_desc (snd e) = [] then rn else rad_desc (snd e)) (fst e)]"
    from assms(1) [unfolded upd] set_update_subset [of pn' ?new "fst acc"]
    have "(pn, regs) \<in> set (fst acc) \<or> (pn = pn' \<and> regs = ?new)" by auto
    then show ?thesis
    proof
      assume "(pn, regs) \<in> set (fst acc)"
      with assms(2) show ?thesis by blast
    next
      assume r: "pn = pn' \<and> regs = ?new"
      show ?thesis
      proof (cases "map_of (fst acc) pn'")
        case None
        with r assms(2) show ?thesis by auto
      next
        case (Some rs)
        then have "(pn', rs) \<in> set (fst acc)" by (rule map_of_SomeD)
        with r Some assms(2) show ?thesis by auto
      qed
    qed
  qed
qed

lemma foldl_group_step_defines:
  "(pn, regs) \<in> set (fst (foldl (group_step p2p p2r) acc ri)) \<Longrightarrow> reg_info \<in> set regs
     \<Longrightarrow> reg_define reg_info \<in> fst ` set ri
         \<or> (\<exists>regs'. (pn, regs') \<in> set (fst acc) \<and> reg_info \<in> set regs')"
proof (induction ri arbitrary: acc)
  case Nil
  then show ?case by auto
next
  case (Cons e ri)
  from Cons.IH [of "group_step p2p p2r acc e"] Cons.prems
  have "reg_define reg_info \<in> fst ` set ri
      \<or> (\<exists>regs'. (pn, regs') \<in> set (fst (group_step p2p p2r acc e)) \<and> reg_info \<in> set regs')"
    by simp
  then show ?case
  proof
    assume "reg_define reg_info \<in> fst ` set ri"
    then show ?thesis by auto
  next
    assume "\<exists>regs'. (pn, regs') \<in> set (fst (group_step p2p p2r acc e)) \<and> reg_info \<in> set regs'"
    then obtain regs' where "(pn, regs') \<in> set (fst (group_step p2p p2r acc e))"
      "reg_info \<in> set regs'" by blast
    from group_step_defines [OF this] show ?thesis by auto
  qed
qed

section \<open>The most specific register macro\<close>










section \<open>Dictionaries filled with distinct keys\<close>

lemma update_absent: "k \<notin> fst ` set al \<Longrightarrow> AList.update k v al = al @ [(k, v)]"
  by (induction al) auto

lemma foldl_update_distinct:
  "distinct (map key xs) \<Longrightarrow> key ` set xs \<inter> fst ` set init = {}
     \<Longrightarrow> foldl (\<lambda>acc x. AList.update (key x) (val x) acc) init xs
         = init @ map (\<lambda>x. (key x, val x)) xs"
proof (induction xs arbitrary: init)
  case Nil
  then show ?case by simp
next
  case (Cons x xs)
  from Cons.prems(2) have "key x \<notin> fst ` set init" by auto
  then have u: "AList.update (key x) (val x) init = init @ [(key x, val x)]"
    by (rule update_absent)
  have "key ` set xs \<inter> fst ` set (init @ [(key x, val x)]) = {}"
    using Cons.prems by auto
  with Cons.IH [of "init @ [(key x, val x)]"] Cons.prems(1) u show ?case by simp
qed

lemma build_peripheral_registers:
  assumes "distinct (map reg_name regs)"
  shows "registers (build_peripheral all_reg_fqns fi fd pn regs)
     = map (\<lambda>reg_info. (reg_name reg_info,
              build_register all_reg_fqns fi fd (min_list (map addr regs)) reg_info))
         (sort_key addr regs)"
proof -
  from assms have "distinct (map reg_name (sort_key addr regs))"
    by (simp add: distinct_map)
  from foldl_update_distinct [OF this, of "[]"
      "build_register all_reg_fqns fi fd (min_list (map addr regs))"]
  show ?thesis by (simp add: build_peripheral_def Let_def)
qed

lemma min_list_mem: "xs \<noteq> [] \<Longrightarrow> min_list xs \<in> set (xs :: int list)"
  by (simp add: min_list_Min)

text \<open>
  A peripheral built from a group whose registers have distinct names holds all the
  registers of the group.
\<close>

lemma build_peripheral_addresses:
  assumes "distinct (map reg_name regs)" and "regs \<noteq> []"
    and "p = build_peripheral all_reg_fqns fi fd pn regs"
  shows "map (\<lambda>(rn, r). (rn, r_name r, base_address p + address_offset r)) (registers p)
           = map (\<lambda>reg_info. (reg_name reg_info, reg_name reg_info, addr reg_info))
               (sort_key addr regs)"
    and "base_address p = Min (addr ` set regs)"
    and "(\<lambda>(rn, r). base_address p + address_offset r) ` set (registers p) = addr ` set regs"
proof -
  have base: "base_address p = min_list (map addr regs)"
    by (simp add: assms(3) build_peripheral_def Let_def)
  have regs: "registers p = map (\<lambda>reg_info. (reg_name reg_info,
              build_register all_reg_fqns fi fd (min_list (map addr regs)) reg_info))
         (sort_key addr regs)"
    unfolding assms(3) by (rule build_peripheral_registers [OF assms(1)])
  show m: "map (\<lambda>(rn, r). (rn, r_name r, base_address p + address_offset r)) (registers p)
           = map (\<lambda>reg_info. (reg_name reg_info, reg_name reg_info, addr reg_info))
               (sort_key addr regs)"
    unfolding regs base by (simp add: build_register_def)
  show "base_address p = Min (addr ` set regs)"
    using assms(2) by (simp add: base min_list_Min)
  have "(\<lambda>(rn, r). base_address p + address_offset r) ` set (registers p)
      = (snd \<circ> snd) ` set (map (\<lambda>(rn, r). (rn, r_name r, base_address p + address_offset r))
            (registers p))"
    by (force simp: image_iff)
  also have "\<dots> = addr ` set regs"
    unfolding m by (force simp: image_iff)
  finally show "(\<lambda>(rn, r). base_address p + address_offset r) ` set (registers p)
      = addr ` set regs" .
qed

section \<open>The tables of recorded names\<close>

lemma record_fqn_ok:
  assumes "fqn_tables_ok (reg_fqn_to_periph st) (reg_fqn_to_regname st)"
  shows "fqn_tables_ok (reg_fqn_to_periph (record_fqn st p r))
           (reg_fqn_to_regname (record_fqn st p r))"
proof (cases "p \<noteq> [] \<and> r \<noteq> [] \<and> \<not> contains r ''::''
    \<and> map_of (reg_fqn_to_periph st) (p @ ''_'' @ spaces_to_underscores (strip r)) = None")
  case False
  with assms show ?thesis by (auto simp: record_fqn_def Let_def)
next
  case True
  let ?rn = "spaces_to_underscores (strip r)"
  let ?f = "p @ ''_'' @ ?rn"
  from True have eq: "reg_fqn_to_periph (record_fqn st p r)
        = AList.update ?f p (reg_fqn_to_periph st)"
    "reg_fqn_to_regname (record_fqn st p r)
        = AList.update ?f ?rn (reg_fqn_to_regname st)"
    by (simp_all add: record_fqn_def Let_def)
  have a: "\<forall>entry \<in> set (AList.update ?f p (reg_fqn_to_periph st)).
      prefix (snd entry @ ''_'') (fst entry)"
  proof
    fix entry assume "entry \<in> set (AList.update ?f p (reg_fqn_to_periph st))"
    with set_update_subset [of ?f p "reg_fqn_to_periph st"]
    have "entry = (?f, p) \<or> entry \<in> set (reg_fqn_to_periph st)" by auto
    with assms show "prefix (snd entry @ ''_'') (fst entry)"
      by (auto simp: fqn_tables_ok_def)
  qed
  have b: "k = pn @ ''_'' @ rn"
    if "map_of (AList.update ?f p (reg_fqn_to_periph st)) k = Some pn
        \<and> map_of (AList.update ?f ?rn (reg_fqn_to_regname st)) k = Some rn" for k pn rn
  proof (cases "k = ?f")
    case True
    with that show ?thesis by (simp add: AList.update_conv')
  next
    case False
    with that have "map_of (reg_fqn_to_periph st) k = Some pn"
      "map_of (reg_fqn_to_regname st) k = Some rn"
      by (simp_all add: AList.update_conv')
    with assms show ?thesis unfolding fqn_tables_ok_def by blast
  qed
  from a b show ?thesis unfolding eq fqn_tables_ok_def by blast
qed

lemma handle_comment_fqn_ok:
  assumes "fqn_tables_ok (reg_fqn_to_periph st) (reg_fqn_to_regname st)"
  shows "fqn_tables_ok (reg_fqn_to_periph (handle_comment st line))
           (reg_fqn_to_regname (handle_comment st line))"
proof (cases "field_comment_groups line")
  case (Some g)
  obtain p r d where g: "g = (p, r, d)" by (cases g)
  let ?st1 = "st\<lparr>last_field_info := Some (p @ ''_'' @ spaces_to_underscores r, strip d)\<rparr>"
  have "fqn_tables_ok (reg_fqn_to_periph ?st1) (reg_fqn_to_regname ?st1)"
    using assms by simp
  from record_fqn_ok [OF this, of p r] Some g show ?thesis
    by (simp add: handle_comment_def)
next
  case None
  show ?thesis
  proof (cases "register_comment_groups line")
    case n: None
    with None assms show ?thesis by (simp add: handle_comment_def)
  next
    case (Some g)
    obtain p r where g: "g = (p, r)" by (cases g)
    from record_fqn_ok [OF assms, of p r] None Some g show ?thesis
      by (simp add: handle_comment_def)
  qed
qed

lemma process_define_fqn:
  assumes "process_define st name value_str comment = Inr st'"
  shows "reg_fqn_to_periph st' = reg_fqn_to_periph st"
    and "reg_fqn_to_regname st' = reg_fqn_to_regname st"
proof -
  have "reg_fqn_to_periph st' = reg_fqn_to_periph st
      \<and> reg_fqn_to_regname st' = reg_fqn_to_regname st"
  proof (cases "is_field_prop name comment")
    case True
    show ?thesis
    proof (cases "int_base0 value_str")
      case (Inl e)
      with process_define_field_prop_Inl [OF True Inl, of st] assms show ?thesis by simp
    next
      case (Inr v)
      from process_define_field_prop_Inr [OF True Inr, of st] assms show ?thesis by auto
    qed
  next
    case False
    with assms show ?thesis
      by (auto simp: process_define_def split: if_splits sum.splits)
  qed
  then show "reg_fqn_to_periph st' = reg_fqn_to_periph st"
    and "reg_fqn_to_regname st' = reg_fqn_to_regname st" by simp_all
qed

lemma parse_line_fqn_ok:
  assumes "parse_line st raw = Inr st'"
    and "fqn_tables_ok (reg_fqn_to_periph st) (reg_fqn_to_regname st)"
  shows "fqn_tables_ok (reg_fqn_to_periph st') (reg_fqn_to_regname st')"
proof -
  let ?st0 = "if \<not> (startswith (strip raw) ''#define'' \<or> startswith (strip raw) ''/*''
                         \<or> strip raw = [])
                  then st\<lparr>last_field_info := None\<rparr> else st"
  have f0: "reg_fqn_to_periph ?st0 = reg_fqn_to_periph st"
    "reg_fqn_to_regname ?st0 = reg_fqn_to_regname st" by simp_all
  from assms(1) obtain st1 where h: "handle_define ?st0 (strip raw) = Inr st1"
    and st': "st' = handle_comment st1 (strip raw)"
    by (auto simp: parse_line_def Let_def split: sum.splits)
  have "reg_fqn_to_periph st1 = reg_fqn_to_periph st
      \<and> reg_fqn_to_regname st1 = reg_fqn_to_regname st"
  proof (cases "define_groups (strip raw)")
    case None
    with h f0 show ?thesis by (simp add: handle_define_def)
  next
    case (Some g)
    obtain name value_str comment where g: "g = (name, value_str, comment)" by (cases g)
    from h Some g have "process_define ?st0 name value_str comment = Inr st1"
      by (simp add: handle_define_def)
    from process_define_fqn [OF this] f0 show ?thesis by simp
  qed
  with assms(2) have "fqn_tables_ok (reg_fqn_to_periph st1) (reg_fqn_to_regname st1)" by simp
  from handle_comment_fqn_ok [OF this] st' show ?thesis by simp
qed

lemma parse_lines_fqn_ok:
  "parse_lines st ls = Inr st' \<Longrightarrow> fqn_tables_ok (reg_fqn_to_periph st) (reg_fqn_to_regname st)
     \<Longrightarrow> fqn_tables_ok (reg_fqn_to_periph st') (reg_fqn_to_regname st')"
proof (induction ls arbitrary: st)
  case Nil
  then show ?case by simp
next
  case (Cons l ls)
  from Cons.prems(1) obtain st1 where
    s: "parse_line st l = Inr st1" "parse_lines st1 ls = Inr st'"
    by (auto split: sum.splits)
  from Cons.IH [OF s(2) parse_line_fqn_ok [OF s(1) Cons.prems(2)]] show ?case .
qed

lemma parse_header_lines_tables:
  assumes "parse_header_lines ls = Inr ph"
  shows "fqn_tables_ok (reg_fqn_to_periph ph) (reg_fqn_to_regname ph)"
    and "distinct (map fst (registers_info ph))"
proof -
  from assms obtain st where run: "parse_lines init_state ls = Inr st"
    and ph: "ph = ParsedHeader.truncate st"
    by (auto simp: parse_header_lines_def split: sum.splits)
  have "fqn_tables_ok (reg_fqn_to_periph init_state) (reg_fqn_to_regname init_state)"
    by (simp add: fqn_tables_ok_def init_state_def)
  from parse_lines_fqn_ok [OF run this]
  show "fqn_tables_ok (reg_fqn_to_periph ph) (reg_fqn_to_regname ph)"
    by (simp add: ph ParsedHeader.truncate_def)
  from parse_lines_distinct_registers [OF run]
  show "distinct (map fst (registers_info ph))"
    by (simp add: ph ParsedHeader.truncate_def init_state_def)
qed

section \<open>What one register does to the groups\<close>

lemma group_step_resolved:
  assumes "resolve_register p2p p2r (fst e) = (Some pn, Some rn)" and "pn \<noteq> []" and "rn \<noteq> []"
  shows "group_step p2p p2r acc e =
     (AList.update pn
        ((case map_of (fst acc) pn of None \<Rightarrow> [] | Some rs \<Rightarrow> rs)
         @ [RegisterInfo rn (rad_addr (snd e))
              (if rad_desc (snd e) = [] then rn else rad_desc (snd e)) (fst e)])
        (fst acc), snd acc)"
  using assms by (simp add: group_step_def)

lemma group_step_unresolved:
  assumes "\<not> (\<exists>pn rn. resolve_register p2p p2r (fst e) = (Some pn, Some rn)
              \<and> pn \<noteq> [] \<and> rn \<noteq> [])"
  shows "group_step p2p p2r acc e = (fst acc, snd acc @ [warning (fst e)])"
proof -
  obtain a b where rr: "resolve_register p2p p2r (fst e) = (a, b)"
    by (cases "resolve_register p2p p2r (fst e)")
  show ?thesis
  proof (cases a)
    case None
    with rr show ?thesis by (simp add: group_step_def)
  next
    case pn: (Some pn)
    show ?thesis
    proof (cases b)
      case None
      with rr pn show ?thesis by (simp add: group_step_def)
    next
      case rn: (Some rn)
      with rr pn assms have "pn = [] \<or> rn = []" by auto
      with rr pn rn show ?thesis by (auto simp: group_step_def)
    qed
  qed
qed

lemma resolve_register_direct:
  "map_of p2p rd = Some pn \<Longrightarrow> pn \<noteq> []
     \<Longrightarrow> resolve_register p2p p2r rd = (Some pn, map_of p2r rd)"
  by (simp add: resolve_register_def truthy_def)

text \<open>With well-formed tables, a resolved macro is the two names joined by an underscore.\<close>

lemma resolve_register_name:
  assumes ok: "fqn_tables_ok p2p p2r"
    and r: "resolve_register p2p p2r rd = (Some pn, Some rn)" and ne: "pn \<noteq> []"
  shows "rd = pn @ ''_'' @ rn"
proof (cases "truthy (map_of p2p rd)")
  case True
  with r have "map_of p2p rd = Some pn" "map_of p2r rd = Some rn"
    by (simp_all add: resolve_register_def)
  with ok show ?thesis unfolding fqn_tables_ok_def by blast
next
  case False
  show ?thesis
  proof (cases "find (\<lambda>kv. startswith rd (fst kv)) (longest_first p2p)")
    case None
    with False r have "map_of p2p rd = Some pn" by (simp add: resolve_register_def)
    with False ne show ?thesis by (simp add: truthy_def)
  next
    case (Some kv)
    with False r have "pn = snd kv \<and> rn = drop (length pn + 1) rd"
      by (auto simp: resolve_register_def)
    then have pn: "pn = snd kv" and rn: "rn = drop (length pn + 1) rd" by simp_all
    note F = find_longest_first [OF Some]
    from ok F(1) have "prefix (snd kv @ ''_'') (fst kv)"
      unfolding fqn_tables_ok_def by blast
    with F(2) pn have "prefix (pn @ ''_'') rd" by (meson prefix_order.trans)
    then obtain rest where "rd = (pn @ ''_'') @ rest" by (auto simp: prefix_def)
    with rn show ?thesis by simp
  qed
qed

lemma groups_ok_mono: "groups_ok K g \<Longrightarrow> K \<subseteq> K' \<Longrightarrow> groups_ok K' g"
  unfolding groups_ok_def by blast

lemma group_step_ok:
  assumes g: "groups_ok K (fst acc)" and ok: "fqn_tables_ok p2p p2r" and new: "fst e \<notin> K"
  shows "groups_ok (insert (fst e) K) (fst (group_step p2p p2r acc e))"
proof (cases "\<exists>pn rn. resolve_register p2p p2r (fst e) = (Some pn, Some rn)
              \<and> pn \<noteq> [] \<and> rn \<noteq> []")
  case False
  from group_step_unresolved [OF False, of acc] groups_ok_mono [OF g, of "insert (fst e) K"]
  show ?thesis by auto
next
  case True
  then obtain pn rn where r: "resolve_register p2p p2r (fst e) = (Some pn, Some rn)"
    and ne: "pn \<noteq> []" "rn \<noteq> []" by blast
  let ?old = "case map_of (fst acc) pn of None \<Rightarrow> [] | Some rs \<Rightarrow> rs"
  let ?new = "RegisterInfo rn (rad_addr (snd e))
              (if rad_desc (snd e) = [] then rn else rad_desc (snd e)) (fst e)"
  have step: "fst (group_step p2p p2r acc e) = AList.update pn (?old @ [?new]) (fst acc)"
    using group_step_resolved [OF r ne, of acc] by simp
  from resolve_register_name [OF ok r ne(1)] have name: "fst e = pn @ ''_'' @ rn" .
  have old: "distinct (map reg_define ?old)
      \<and> (\<forall>reg_info \<in> set ?old. reg_define reg_info = pn @ ''_'' @ reg_name reg_info
            \<and> reg_define reg_info \<in> K)"
  proof (cases "map_of (fst acc) pn")
    case None
    then show ?thesis by simp
  next
    case (Some rs)
    then have "(pn, rs) \<in> set (fst acc)" by (rule map_of_SomeD)
    with g Some show ?thesis unfolding groups_ok_def by fastforce
  qed
  have d: "distinct (map fst (AList.update pn (?old @ [?new]) (fst acc)))"
    using g by (simp add: groups_ok_def AList.distinct_update)
  have "distinct (map reg_define (snd entry))
            \<and> (\<forall>reg_info \<in> set (snd entry).
                  reg_define reg_info = fst entry @ ''_'' @ reg_name reg_info
                  \<and> reg_define reg_info \<in> insert (fst e) K)"
    if "entry \<in> set (AList.update pn (?old @ [?new]) (fst acc))" for entry
  proof -
    from that set_update_subset [of pn "?old @ [?new]" "fst acc"]
    have "entry = (pn, ?old @ [?new]) \<or> entry \<in> set (fst acc)" by auto
    then show ?thesis
    proof
      assume e: "entry = (pn, ?old @ [?new])"
      from old new have "fst e \<notin> reg_define ` set ?old" by auto
      with old have "distinct (map reg_define (?old @ [?new]))" by simp
      with old name e show ?thesis by auto
    next
      assume "entry \<in> set (fst acc)"
      with g show ?thesis unfolding groups_ok_def by blast
    qed
  qed
  with d show ?thesis unfolding step groups_ok_def by blast
qed

lemma foldl_group_step_ok:
  "groups_ok K (fst acc) \<Longrightarrow> fqn_tables_ok p2p p2r \<Longrightarrow> distinct (map fst ri)
     \<Longrightarrow> fst ` set ri \<inter> K = {}
     \<Longrightarrow> groups_ok (K \<union> fst ` set ri) (fst (foldl (group_step p2p p2r) acc ri))"
proof (induction ri arbitrary: acc K)
  case Nil
  then show ?case by simp
next
  case (Cons e ri)
  from Cons.prems(4) have new: "fst e \<notin> K" by auto
  have "fst ` set ri \<inter> insert (fst e) K = {}" using Cons.prems(3,4) by auto
  from Cons.IH [OF group_step_ok [OF Cons.prems(1,2) new] Cons.prems(2) _ this] Cons.prems(3)
  show ?case by simp
qed

lemma groups_ok_names:
  assumes "groups_ok K g" and "(pn, regs) \<in> set g"
  shows "distinct (map reg_name regs)"
proof -
  from assms have d: "distinct (map reg_define regs)"
    and n: "\<forall>reg_info \<in> set regs. reg_define reg_info = pn @ ''_'' @ reg_name reg_info"
    unfolding groups_ok_def by fastforce+
  from n have "map reg_define regs = map (\<lambda>s. pn @ ''_'' @ s) (map reg_name regs)" by simp
  with d show ?thesis by (metis distinct_map)
qed

text \<open>The groups made from a parsed header.\<close>

lemma header_groups_ok:
  assumes "parse_header_lines ls = Inr ph"
  shows "groups_ok (fst ` set (registers_info ph))
     (fst (group_registers_by_peripheral (registers_info ph) (reg_fqn_to_periph ph)
             (reg_fqn_to_regname ph)))"
proof -
  note T = parse_header_lines_tables [OF assms]
  have "groups_ok {} (fst (([], []) :: (string \<times> RegisterInfo list) list \<times> string list))"
    by (simp add: groups_ok_def)
  from foldl_group_step_ok [OF this T(1) T(2)] show ?thesis
    by (simp add: group_registers_by_peripheral_def)
qed

section \<open>Base addresses and offsets\<close>

text \<open>
  C4, refuted as stated.  A group with two registers of the same name, at the addresses 16
  and 32, gives a peripheral with the base address 16 that holds one register only, the
  one defined at the address 32, with the offset 16.  The base address is not the least
  absolute address among the registers that the peripheral holds, which is 32.
\<close>

theorem C4_counterexample:
  "build_device_tree ''D'' ''DD''
     [(''P'', [RegisterInfo ''R'' 16 ''first'' ''P_X'', RegisterInfo ''R'' 32 ''second'' ''P_Y''])]
     [] []
   = Device ''D'' ''DD''
       [(''P'', Peripheral ''P'' 16 ''P Peripheral'' [(''R'', Register ''R'' ''second'' 16 32 [])])]
   \<and> base_address (Peripheral ''P'' 16 ''P Peripheral'' [(''R'', Register ''R'' ''second'' 16 32 [])])
       \<noteq> Min {addr (RegisterInfo ''R'' 32 ''second'' ''P_Y'')}"
  by code_simp

text \<open>
  C4, amended.  Let no two registers of a group have the same name, as is the case for
  every group that \<open>group_registers_by_peripheral\<close> makes from the tables of a parsed
  header.  Then a peripheral of the tree built by \<open>build_device_tree\<close> comes from a
  group that has registers, and it holds the registers of the group, each under its name
  and with the offset that, added to the base address, gives its absolute address.  The
  base address is the least absolute address among the registers that the peripheral
  holds, every offset is at least zero, and one register has the offset zero.
\<close>

theorem C4_base_address_minimal:
  "((pn, p) \<in> set (peripherals (build_device_tree dn dd pers fi fd))
      \<and> (\<forall>entry \<in> set pers. distinct (map reg_name (snd entry)))
     \<longrightarrow> (\<exists>regs. (pn, regs) \<in> set pers \<and> regs \<noteq> [] \<and> p_name p = pn
           \<and> map (\<lambda>(rn, r). (rn, r_name r, base_address p + address_offset r)) (registers p)
               = map (\<lambda>reg_info. (reg_name reg_info, reg_name reg_info, addr reg_info))
                   (sort_key addr regs)
           \<and> base_address p
               = Min ((\<lambda>(rn, r). base_address p + address_offset r) ` set (registers p))
           \<and> base_address p = Min (addr ` set regs)
           \<and> (\<forall>(rn, r) \<in> set (registers p). 0 \<le> address_offset r)
           \<and> (\<exists>(rn, r) \<in> set (registers p). address_offset r = 0)))
   \<and> (parse_header_lines ls = Inr ph
        \<longrightarrow> (\<forall>entry \<in> set (fst (group_registers_by_peripheral (registers_info ph)
                                   (reg_fqn_to_periph ph) (reg_fqn_to_regname ph))).
               distinct (map reg_name (snd entry))))"
proof (intro conjI impI)
  assume h: "(pn, p) \<in> set (peripherals (build_device_tree dn dd pers fi fd))
      \<and> (\<forall>entry \<in> set pers. distinct (map reg_name (snd entry)))"
  from peripheral_provenance [of pn p dn dd pers fi fd] h obtain regs where
    regs: "(pn, regs) \<in> set pers" "regs \<noteq> []"
    and p: "p = build_peripheral (collect_reg_fqns pers) fi fd pn regs"
    by blast
  from h regs(1) have d: "distinct (map reg_name regs)" by fastforce
  note A = build_peripheral_addresses [OF d regs(2) p]
  have name: "p_name p = pn" by (simp add: p build_peripheral_def Let_def)
  have base: "base_address p = min_list (map addr regs)"
    by (simp add: p build_peripheral_def Let_def)
  have m: "base_address p
      = Min ((\<lambda>(rn, r). base_address p + address_offset r) ` set (registers p))"
    unfolding A(3) by (rule A(2))
  have nonneg: "0 \<le> address_offset r" if "(rn, r) \<in> set (registers p)" for rn r
  proof -
    from that register_provenance [of rn r "collect_reg_fqns pers" fi fd pn regs]
    obtain reg_info where ri: "reg_info \<in> set regs"
      "r = build_register (collect_reg_fqns pers) fi fd (min_list (map addr regs)) reg_info"
      unfolding p by blast
    have "min_list (map addr regs) \<le> addr reg_info"
      using ri(1) by (intro min_list_le) simp
    with ri(2) show ?thesis by (simp add: build_register_def)
  qed
  have "Min (addr ` set regs) \<in> addr ` set regs"
    using regs(2) by (intro Min_in) simp_all
  with A(2,3) have "base_address p
      \<in> (\<lambda>(rn, r). base_address p + address_offset r) ` set (registers p)"
    by simp
  then obtain rn0 r0 where r0: "(rn0, r0) \<in> set (registers p)"
    "base_address p = base_address p + address_offset r0"
    by auto
  have zero: "\<exists>(rn, r) \<in> set (registers p). address_offset r = 0"
    using r0 by (intro bexI [of _ "(rn0, r0)"]) simp_all
  from regs name A(1) m A(2) nonneg zero
  show "\<exists>regs. (pn, regs) \<in> set pers \<and> regs \<noteq> [] \<and> p_name p = pn
           \<and> map (\<lambda>(rn, r). (rn, r_name r, base_address p + address_offset r)) (registers p)
               = map (\<lambda>reg_info. (reg_name reg_info, reg_name reg_info, addr reg_info))
                   (sort_key addr regs)
           \<and> base_address p
               = Min ((\<lambda>(rn, r). base_address p + address_offset r) ` set (registers p))
           \<and> base_address p = Min (addr ` set regs)
           \<and> (\<forall>(rn, r) \<in> set (registers p). 0 \<le> address_offset r)
           \<and> (\<exists>(rn, r) \<in> set (registers p). address_offset r = 0)"
    by (intro exI [of _ regs]) (simp add: split_paired_all)
next
  assume ph: "parse_header_lines ls = Inr ph"
  show "\<forall>entry \<in> set (fst (group_registers_by_peripheral (registers_info ph)
                                   (reg_fqn_to_periph ph) (reg_fqn_to_regname ph))).
               distinct (map reg_name (snd entry))"
  proof
    fix entry
    assume "entry \<in> set (fst (group_registers_by_peripheral (registers_info ph)
                                   (reg_fqn_to_periph ph) (reg_fqn_to_regname ph)))"
    then have "(fst entry, snd entry) \<in> set (fst (group_registers_by_peripheral
        (registers_info ph) (reg_fqn_to_periph ph) (reg_fqn_to_regname ph)))" by simp
    from groups_ok_names [OF header_groups_ok [OF ph] this]
    show "distinct (map reg_name (snd entry))" .
  qed
qed

theorem C4_base_address_minimal_witness:
  "(''P'', Peripheral ''P'' 0x10 ''P Peripheral''
      [(''A'', Register ''A'' ''a'' 0 32 []), (''B'', Register ''B'' ''b'' 0x10 32 [])])
     \<in> set (peripherals (build_device_tree ''D'' ''DD''
          [(''P'', [RegisterInfo ''B'' 0x20 ''b'' ''P_B'', RegisterInfo ''A'' 0x10 ''a'' ''P_A'']),
           (''Q'', [])] [] []))
   \<and> distinct (map reg_name [RegisterInfo ''B'' 0x20 ''b'' ''P_B'', RegisterInfo ''A'' 0x10 ''a'' ''P_A''])
   \<and> base_address (Peripheral ''P'' 0x10 ''P Peripheral''
        [(''A'', Register ''A'' ''a'' 0 32 []), (''B'', Register ''B'' ''b'' 0x10 32 [])])
      = Min ((\<lambda>(rn, r). base_address (Peripheral ''P'' 0x10 ''P Peripheral''
                [(''A'', Register ''A'' ''a'' 0 32 []), (''B'', Register ''B'' ''b'' 0x10 32 [])])
              + address_offset r)
          ` set (registers (Peripheral ''P'' 0x10 ''P Peripheral''
                [(''A'', Register ''A'' ''a'' 0 32 []), (''B'', Register ''B'' ''b'' 0x10 32 [])])))"
proof -
  let ?pers = "[(''P'', [RegisterInfo ''B'' 0x20 ''b'' ''P_B'', RegisterInfo ''A'' 0x10 ''a'' ''P_A'']),
           (''Q'', [])]"
  let ?p = "Peripheral ''P'' 0x10 ''P Peripheral''
      [(''A'', Register ''A'' ''a'' 0 32 []), (''B'', Register ''B'' ''b'' 0x10 32 [])]"
  have mem: "(''P'', ?p) \<in> set (peripherals (build_device_tree ''D'' ''DD'' ?pers [] []))"
    by code_simp
  have d: "\<forall>entry \<in> set ?pers. distinct (map reg_name (snd entry))" by simp
  have d': "distinct (map reg_name
      [RegisterInfo ''B'' 0x20 ''b'' ''P_B'', RegisterInfo ''A'' 0x10 ''a'' ''P_A''])" by simp
  from C4_base_address_minimal [of "''P''" ?p "''D''" "''DD''" ?pers "[]" "[]"] mem d
  have "base_address ?p = Min ((\<lambda>(rn, r). base_address ?p + address_offset r)
          ` set (registers ?p))"
    by blast
  with mem d' show ?thesis by blast
qed

section \<open>Registers that are kept\<close>

text \<open>A register of a group stays in the group through the later turns of the loop.\<close>

lemma group_step_keeps:
  assumes "map_of (fst acc) pn = Some regs" and "reg_info \<in> set regs"
  shows "\<exists>regs'. map_of (fst (group_step p2p p2r acc e)) pn = Some regs'
           \<and> reg_info \<in> set regs'"
proof -
  from group_step_cases [of p2p p2r acc e] show ?thesis
  proof
    assume "group_step p2p p2r acc e = (fst acc, snd acc @ [warning (fst e)])"
    with assms show ?thesis by simp
  next
    assume "\<exists>pn rn. group_step p2p p2r acc e =
        (AList.update pn
           ((case map_of (fst acc) pn of None \<Rightarrow> [] | Some rs \<Rightarrow> rs)
            @ [RegisterInfo rn (rad_addr (snd e))
                 (if rad_desc (snd e) = [] then rn else rad_desc (snd e)) (fst e)])
           (fst acc), snd acc)"
    then obtain pn' rn where upd: "fst (group_step p2p p2r acc e) =
        AList.update pn'
          ((case map_of (fst acc) pn' of None \<Rightarrow> [] | Some rs \<Rightarrow> rs)
           @ [RegisterInfo rn (rad_addr (snd e))
                (if rad_desc (snd e) = [] then rn else rad_desc (snd e)) (fst e)])
          (fst acc)"
      by auto
    show ?thesis
    proof (cases "pn' = pn")
      case True
      with assms show ?thesis unfolding upd by (simp add: AList.update_conv')
    next
      case False
      with assms show ?thesis unfolding upd by (simp add: AList.update_conv')
    qed
  qed
qed

lemma foldl_group_step_keeps:
  "map_of (fst acc) pn = Some regs \<Longrightarrow> reg_info \<in> set regs
     \<Longrightarrow> \<exists>regs'. map_of (fst (foldl (group_step p2p p2r) acc ri)) pn = Some regs'
           \<and> reg_info \<in> set regs'"
proof (induction ri arbitrary: acc regs)
  case Nil
  then show ?case by simp
next
  case (Cons e ri)
  from group_step_keeps [OF Cons.prems, of p2p p2r e] obtain regs1 where
    "map_of (fst (group_step p2p p2r acc e)) pn = Some regs1" "reg_info \<in> set regs1"
    by blast
  from Cons.IH [OF this] show ?case by simp
qed

text \<open>A register that resolves to two names that are not empty is put into its group.\<close>

lemma group_step_adds:
  assumes "resolve_register p2p p2r (fst e) = (Some pn, Some rn)" and "pn \<noteq> []" and "rn \<noteq> []"
  shows "\<exists>regs. map_of (fst (group_step p2p p2r acc e)) pn = Some regs
           \<and> RegisterInfo rn (rad_addr (snd e))
                (if rad_desc (snd e) = [] then rn else rad_desc (snd e)) (fst e) \<in> set regs"
  unfolding group_step_resolved [OF assms] by (simp add: AList.update_conv')

lemma foldl_group_step_kept:
  assumes "resolve_register p2p p2r (fst e) = (Some pn, Some rn)" and "pn \<noteq> []" and "rn \<noteq> []"
  shows "e \<in> set ri
     \<Longrightarrow> \<exists>regs. map_of (fst (foldl (group_step p2p p2r) acc ri)) pn = Some regs
           \<and> RegisterInfo rn (rad_addr (snd e))
                (if rad_desc (snd e) = [] then rn else rad_desc (snd e)) (fst e) \<in> set regs"
proof (induction ri arbitrary: acc)
  case Nil
  then show ?case by simp
next
  case (Cons x ri)
  show ?case
  proof (cases "x = e")
    case True
    from group_step_adds [OF assms, of acc] obtain regs where
      "map_of (fst (group_step p2p p2r acc e)) pn = Some regs"
      "RegisterInfo rn (rad_addr (snd e))
         (if rad_desc (snd e) = [] then rn else rad_desc (snd e)) (fst e) \<in> set regs"
      by blast
    from foldl_group_step_keeps [OF this, of p2p p2r ri] True show ?thesis by simp
  next
    case False
    with Cons.prems have "e \<in> set ri" by simp
    from Cons.IH [OF this, of "group_step p2p p2r acc x"] show ?thesis by simp
  qed
qed

text \<open>The names of the groups are distinct: the groups are the items of a dictionary.\<close>

lemma group_step_distinct:
  assumes "distinct (map fst (fst acc))"
  shows "distinct (map fst (fst (group_step p2p p2r acc e)))"
  using group_step_cases [of p2p p2r acc e] assms
  by (auto simp: AList.distinct_update)

lemma foldl_group_step_distinct:
  "distinct (map fst (fst acc))
     \<Longrightarrow> distinct (map fst (fst (foldl (group_step p2p p2r) acc ri)))"
proof (induction ri arbitrary: acc)
  case Nil
  then show ?case by simp
next
  case (Cons e ri)
  from Cons.IH [OF group_step_distinct [OF Cons.prems]] show ?case by simp
qed

lemma groups_distinct: "distinct (map fst (fst (group_registers_by_peripheral ri p2p p2r)))"
  unfolding group_registers_by_peripheral_def
  by (rule foldl_group_step_distinct) simp

text \<open>A group with registers has its peripheral in the tree, under its name.\<close>

lemma foldl_update_keys:
  "fst ` set (foldl (\<lambda>acc x. AList.update (key x) (val x) acc) init xs)
     = fst ` set init \<union> key ` set xs"
  by (induction xs arbitrary: init) (auto simp: AList.dom_update)

lemma group_in_tree:
  assumes d: "distinct (map fst pers)" and mem: "(pn, regs) \<in> set pers" and ne: "regs \<noteq> []"
  shows "(pn, build_peripheral (collect_reg_fqns pers) fi fd pn regs)
           \<in> set (peripherals (build_device_tree dn dd pers fi fd))"
proof -
  from mem ne have "pn \<in> fst ` set (peripherals (build_device_tree dn dd pers fi fd))"
    unfolding peripheral_names by blast
  then obtain p where p: "(pn, p) \<in> set (peripherals (build_device_tree dn dd pers fi fd))"
    by auto
  from peripheral_provenance [OF p] obtain regs' where
    r: "(pn, regs') \<in> set pers" "p = build_peripheral (collect_reg_fqns pers) fi fd pn regs'"
    by blast
  from d mem r(1) have "regs' = regs" by (meson eq_key_imp_eq_value)
  with p r(2) show ?thesis by simp
qed

lemma build_peripheral_holds:
  assumes "reg_info \<in> set regs"
  shows "\<exists>r. (reg_name reg_info, r) \<in> set (registers (build_peripheral all fi fd pn regs))"
proof -
  have "fst ` set (registers (build_peripheral all fi fd pn regs)) = reg_name ` set regs"
    by (simp add: build_peripheral_def Let_def foldl_update_keys)
  with assms have "reg_name reg_info
      \<in> fst ` set (registers (build_peripheral all fi fd pn regs))" by blast
  then show ?thesis by auto
qed

lemma build_peripheral_holds_distinct:
  assumes "reg_info \<in> set regs" and "distinct (map reg_name regs)"
  shows "(reg_name reg_info,
          build_register all fi fd (base_address (build_peripheral all fi fd pn regs)) reg_info)
           \<in> set (registers (build_peripheral all fi fd pn regs))"
proof -
  have base: "base_address (build_peripheral all fi fd pn regs) = min_list (map addr regs)"
    by (simp add: build_peripheral_def Let_def)
  from assms(1) show ?thesis
    unfolding base build_peripheral_registers [OF assms(2)] by (simp add: image_iff) blast
qed

text \<open>The table of the peripheral names is a dictionary: no name is recorded twice.\<close>

lemma record_fqn_distinct:
  assumes "distinct (map fst (reg_fqn_to_periph st))"
  shows "distinct (map fst (reg_fqn_to_periph (record_fqn st p r)))"
  using assms by (simp add: record_fqn_def Let_def AList.distinct_update)

lemma handle_comment_distinct:
  assumes "distinct (map fst (reg_fqn_to_periph st))"
  shows "distinct (map fst (reg_fqn_to_periph (handle_comment st line)))"
proof (cases "field_comment_groups line")
  case (Some g)
  obtain p r d where g: "g = (p, r, d)" by (cases g)
  let ?st1 = "st\<lparr>last_field_info := Some (p @ ''_'' @ spaces_to_underscores r, strip d)\<rparr>"
  have "distinct (map fst (reg_fqn_to_periph ?st1))" using assms by simp
  from record_fqn_distinct [OF this, of p r] Some g show ?thesis
    by (simp add: handle_comment_def)
next
  case None
  show ?thesis
  proof (cases "register_comment_groups line")
    case n: None
    with None assms show ?thesis by (simp add: handle_comment_def)
  next
    case (Some g)
    obtain p r where g: "g = (p, r)" by (cases g)
    from record_fqn_distinct [OF assms, of p r] None Some g show ?thesis
      by (simp add: handle_comment_def)
  qed
qed

lemma parse_line_fqn_distinct:
  assumes "parse_line st raw = Inr st'" and "distinct (map fst (reg_fqn_to_periph st))"
  shows "distinct (map fst (reg_fqn_to_periph st'))"
proof -
  let ?st0 = "if \<not> (startswith (strip raw) ''#define'' \<or> startswith (strip raw) ''/*''
                         \<or> strip raw = [])
                  then st\<lparr>last_field_info := None\<rparr> else st"
  have f0: "reg_fqn_to_periph ?st0 = reg_fqn_to_periph st" by simp
  from assms(1) obtain st1 where h: "handle_define ?st0 (strip raw) = Inr st1"
    and st': "st' = handle_comment st1 (strip raw)"
    by (auto simp: parse_line_def Let_def split: sum.splits)
  have "reg_fqn_to_periph st1 = reg_fqn_to_periph st"
  proof (cases "define_groups (strip raw)")
    case None
    with h f0 show ?thesis by (simp add: handle_define_def)
  next
    case (Some g)
    obtain name value_str comment where g: "g = (name, value_str, comment)" by (cases g)
    from h Some g have "process_define ?st0 name value_str comment = Inr st1"
      by (simp add: handle_define_def)
    from process_define_fqn(1) [OF this] f0 show ?thesis by simp
  qed
  with assms(2) have "distinct (map fst (reg_fqn_to_periph st1))" by simp
  from handle_comment_distinct [OF this] st' show ?thesis by simp
qed

lemma parse_lines_fqn_distinct:
  "parse_lines st ls = Inr st' \<Longrightarrow> distinct (map fst (reg_fqn_to_periph st))
     \<Longrightarrow> distinct (map fst (reg_fqn_to_periph st'))"
proof (induction ls arbitrary: st)
  case Nil
  then show ?case by simp
next
  case (Cons l ls)
  from Cons.prems(1) obtain st1 where
    s: "parse_line st l = Inr st1" "parse_lines st1 ls = Inr st'"
    by (auto split: sum.splits)
  from Cons.IH [OF s(2) parse_line_fqn_distinct [OF s(1) Cons.prems(2)]] show ?case .
qed

lemma parse_header_lines_fqn_distinct:
  assumes "parse_header_lines ls = Inr ph"
  shows "distinct (map fst (reg_fqn_to_periph ph))"
proof -
  from assms obtain st where run: "parse_lines init_state ls = Inr st"
    and ph: "ph = ParsedHeader.truncate st"
    by (auto simp: parse_header_lines_def split: sum.splits)
  from parse_lines_fqn_distinct [OF run]
  show ?thesis by (simp add: ph ParsedHeader.truncate_def init_state_def)
qed

section \<open>A register without a peripheral, and the others\<close>

text \<open>
  C8.  Let the register macro \<open>m\<close> of the register table have no direct association, and
  let no recorded name be a prefix of \<open>m\<close>.  Then \<open>group_registers_by_peripheral\<close> writes
  the warning for \<open>m\<close>; no group holds a register defined by \<open>m\<close>, and every register of
  the tree built from the groups is built from a register of a group, defined by another
  macro.  Every other entry of the register table that has a direct association, or a
  longest recorded name that starts it, with a peripheral name and a register name that are
  not empty, is in the group of its peripheral, and the tree has that peripheral, which
  holds a register under that register name: the register built from the entry, when no two
  registers of the group have the same name.  The groups and the other warnings are those
  of the register table without \<open>m\<close>.  For the tables of a parsed header,
  \<open>parse_header_to_device_tree\<close> returns these warnings and this tree, the recorded names
  are distinct, and no two registers of a group have the same name.
\<close>

theorem C8_unattributable_register:
  assumes nodirect: "map_of p2p m = None"
    and noprefix: "\<forall>k \<in> fst ` set p2p. \<not> prefix k m"
    and mem: "(m, rad) \<in> set ri"
    and G: "G = group_registers_by_peripheral ri p2p p2r"
    and T: "tree = build_device_tree dn dd (fst G) fi fd"
  shows "warning m \<in> set (snd G)
    \<and> (\<forall>(pn, regs) \<in> set (fst G). \<forall>reg_info \<in> set regs. reg_define reg_info \<noteq> m)
    \<and> (\<forall>(pn, p) \<in> set (peripherals tree). \<forall>(rn, r) \<in> set (registers p).
          \<exists>regs reg_info. (pn, regs) \<in> set (fst G) \<and> reg_info \<in> set regs
             \<and> reg_define reg_info \<noteq> m \<and> rn = reg_name reg_info
             \<and> r = build_register (collect_reg_fqns (fst G)) fi fd (base_address p) reg_info)
    \<and> (\<forall>(k, rad') \<in> set ri. \<forall>f pn rn.
          pn \<noteq> [] \<and> rn \<noteq> []
          \<and> (map_of p2p k = Some pn \<and> map_of p2r k = Some rn
             \<or> map_of p2p k = None \<and> distinct (map fst p2p) \<and> (f, pn) \<in> set p2p
               \<and> prefix f k
               \<and> (\<forall>f' \<in> fst ` set p2p. prefix f' k \<longrightarrow> length f' \<le> length f)
               \<and> rn = drop (length pn + 1) k)
          \<longrightarrow> (\<exists>regs p. (pn, regs) \<in> set (fst G)
                \<and> RegisterInfo rn (rad_addr rad')
                     (if rad_desc rad' = [] then rn else rad_desc rad') k \<in> set regs
                \<and> (pn, p) \<in> set (peripherals tree) \<and> p_name p = pn
                \<and> (\<exists>r. (rn, r) \<in> set (registers p))
                \<and> (distinct (map reg_name regs)
                     \<longrightarrow> (rn, Register rn (if rad_desc rad' = [] then rn else rad_desc rad')
                                (rad_addr rad' - base_address p) 32
                                (register_fields (collect_reg_fqns (fst G)) fi fd k))
                             \<in> set (registers p))))
    \<and> fst G = fst (group_registers_by_peripheral (filter (\<lambda>e. fst e \<noteq> m) ri) p2p p2r)
    \<and> filter (\<lambda>w. w \<noteq> warning m) (snd G)
        = snd (group_registers_by_peripheral (filter (\<lambda>e. fst e \<noteq> m) ri) p2p p2r)
    \<and> (parse_header_lines ls = Inr ph \<and> ri = registers_info ph
         \<and> p2p = reg_fqn_to_periph ph \<and> p2r = reg_fqn_to_regname ph
         \<and> fi = fields_info ph \<and> fd = field_descriptions ph
        \<longrightarrow> parse_header_to_device_tree ls dn dd = Inr (snd G, tree)
            \<and> distinct (map fst p2p)
            \<and> (\<forall>entry \<in> set (fst G). distinct (map reg_name (snd entry))))"
proof -
  let ?all = "collect_reg_fqns (fst G)"
  have w: "warning m \<in> set (snd G)"
    unfolding G group_registers_by_peripheral_def
    using foldl_group_step_warns [OF noprefix mem] .
  have eq: "fst G = fst (group_registers_by_peripheral (filter (\<lambda>e. fst e \<noteq> m) ri) p2p p2r)
     \<and> filter (\<lambda>w. w \<noteq> warning m) (snd G)
        = snd (group_registers_by_peripheral (filter (\<lambda>e. fst e \<noteq> m) ri) p2p p2r)"
    unfolding G group_registers_by_peripheral_def
    using foldl_group_step_filter [OF noprefix, of "([], [])" "([], [])" p2r ri] by simp
  have none: "reg_define reg_info \<noteq> m"
    if "(pn, regs) \<in> set (fst G)" and "reg_info \<in> set regs" for pn regs reg_info
  proof -
    from that(1) eq have "(pn, regs) \<in> set (fst (foldl (group_step p2p p2r) ([], [])
        (filter (\<lambda>e. fst e \<noteq> m) ri)))"
      by (simp add: group_registers_by_peripheral_def)
    from foldl_group_step_defines [OF this that(2)]
    have "reg_define reg_info \<in> fst ` set (filter (\<lambda>e. fst e \<noteq> m) ri)" by simp
    then show ?thesis by auto
  qed
  have absent: "\<exists>regs reg_info. (pn, regs) \<in> set (fst G) \<and> reg_info \<in> set regs
             \<and> reg_define reg_info \<noteq> m \<and> rn = reg_name reg_info
             \<and> r = build_register ?all fi fd (base_address p) reg_info"
    if "(pn, p) \<in> set (peripherals tree)" and "(rn, r) \<in> set (registers p)" for pn p rn r
  proof -
    from peripheral_provenance [OF that(1) [unfolded T]] obtain regs where
      regs: "(pn, regs) \<in> set (fst G)" and p: "p = build_peripheral ?all fi fd pn regs"
      by blast
    from register_provenance [OF that(2) [unfolded p]] obtain reg_info where
      ri: "reg_info \<in> set regs" "rn = reg_name reg_info"
      "r = build_register ?all fi fd (min_list (map addr regs)) reg_info"
      by blast
    have "base_address p = min_list (map addr regs)"
      by (simp add: p build_peripheral_def Let_def)
    with regs ri none [OF regs ri(1)] show ?thesis by auto
  qed
  have kept: "\<exists>regs p. (pn, regs) \<in> set (fst G)
                \<and> RegisterInfo rn (rad_addr rad')
                     (if rad_desc rad' = [] then rn else rad_desc rad') k \<in> set regs
                \<and> (pn, p) \<in> set (peripherals tree) \<and> p_name p = pn
                \<and> (\<exists>r. (rn, r) \<in> set (registers p))
                \<and> (distinct (map reg_name regs)
                     \<longrightarrow> (rn, Register rn (if rad_desc rad' = [] then rn else rad_desc rad')
                                (rad_addr rad' - base_address p) 32
                                (register_fields ?all fi fd k))
                             \<in> set (registers p))"
    if e: "(k, rad') \<in> set ri" and ne: "pn \<noteq> []" "rn \<noteq> []"
      and how: "map_of p2p k = Some pn \<and> map_of p2r k = Some rn
             \<or> map_of p2p k = None \<and> distinct (map fst p2p) \<and> (f, pn) \<in> set p2p
               \<and> prefix f k
               \<and> (\<forall>f' \<in> fst ` set p2p. prefix f' k \<longrightarrow> length f' \<le> length f)
               \<and> rn = drop (length pn + 1) k"
    for k rad' f pn rn
  proof -
    let ?reg = "RegisterInfo rn (rad_addr rad')
                     (if rad_desc rad' = [] then rn else rad_desc rad') k"
    from how have res: "resolve_register p2p p2r k = (Some pn, Some rn)"
    proof
      assume "map_of p2p k = Some pn \<and> map_of p2r k = Some rn"
      with resolve_register_direct [of p2p k pn p2r] ne(1) show ?thesis by simp
    next
      assume fb: "map_of p2p k = None \<and> distinct (map fst p2p) \<and> (f, pn) \<in> set p2p
               \<and> prefix f k
               \<and> (\<forall>f' \<in> fst ` set p2p. prefix f' k \<longrightarrow> length f' \<le> length f)
               \<and> rn = drop (length pn + 1) k"
      then have longest: "\<And>k'. k' \<in> fst ` set p2p \<Longrightarrow> prefix k' k \<Longrightarrow> length k' \<le> length f"
        by blast
      from fb have "distinct (map fst p2p)" "map_of p2p k = None" "(f, pn) \<in> set p2p"
        "prefix f k" "rn = drop (length pn + 1) k" by simp_all
      from resolve_register_fallback [OF this(1-4) longest, of p2r] this(5)
      show ?thesis by simp
    qed
    then have res': "resolve_register p2p p2r (fst (k, rad')) = (Some pn, Some rn)" by simp
    from foldl_group_step_kept [OF res' ne e, of "([], [])", unfolded fst_conv snd_conv]
    have "\<exists>regs. map_of (fst G) pn = Some regs \<and> ?reg \<in> set regs"
      unfolding G group_registers_by_peripheral_def .
    then obtain regs where
      m: "map_of (fst G) pn = Some regs" and r: "?reg \<in> set regs"
      by blast
    from m have g: "(pn, regs) \<in> set (fst G)" by (rule map_of_SomeD)
    from r have nonempty: "regs \<noteq> []" by auto
    let ?p = "build_peripheral ?all fi fd pn regs"
    have d: "distinct (map fst (fst G))" unfolding G by (rule groups_distinct)
    from group_in_tree [OF d g nonempty, of fi fd dn dd]
    have t: "(pn, ?p) \<in> set (peripherals tree)" unfolding T .
    have name: "p_name ?p = pn" by (simp add: build_peripheral_def Let_def)
    from build_peripheral_holds [OF r, of ?all fi fd pn]
    have h: "\<exists>r. (rn, r) \<in> set (registers ?p)" by simp
    have hd: "(rn, Register rn (if rad_desc rad' = [] then rn else rad_desc rad')
                 (rad_addr rad' - base_address ?p) 32 (register_fields ?all fi fd k))
               \<in> set (registers ?p)"
      if "distinct (map reg_name regs)"
      using build_peripheral_holds_distinct [OF r that, of ?all fi fd pn]
      by (simp add: build_register_def)
    from g r t name h hd show ?thesis by blast
  qed
  have c1: "\<forall>(pn, regs) \<in> set (fst G). \<forall>reg_info \<in> set regs. reg_define reg_info \<noteq> m"
    using none by auto
  have c2: "\<forall>(pn, p) \<in> set (peripherals tree). \<forall>(rn, r) \<in> set (registers p).
          \<exists>regs reg_info. (pn, regs) \<in> set (fst G) \<and> reg_info \<in> set regs
             \<and> reg_define reg_info \<noteq> m \<and> rn = reg_name reg_info
             \<and> r = build_register ?all fi fd (base_address p) reg_info"
  proof clarify
    fix pn p rn r
    assume "(pn, p) \<in> set (peripherals tree)" "(rn, r) \<in> set (registers p)"
    then show "\<exists>regs reg_info. (pn, regs) \<in> set (fst G) \<and> reg_info \<in> set regs
             \<and> reg_define reg_info \<noteq> m \<and> rn = reg_name reg_info
             \<and> r = build_register ?all fi fd (base_address p) reg_info"
      by (rule absent)
  qed
  have c3: "\<forall>(k, rad') \<in> set ri. \<forall>f pn rn.
          pn \<noteq> [] \<and> rn \<noteq> []
          \<and> (map_of p2p k = Some pn \<and> map_of p2r k = Some rn
             \<or> map_of p2p k = None \<and> distinct (map fst p2p) \<and> (f, pn) \<in> set p2p
               \<and> prefix f k
               \<and> (\<forall>f' \<in> fst ` set p2p. prefix f' k \<longrightarrow> length f' \<le> length f)
               \<and> rn = drop (length pn + 1) k)
          \<longrightarrow> (\<exists>regs p. (pn, regs) \<in> set (fst G)
                \<and> RegisterInfo rn (rad_addr rad')
                     (if rad_desc rad' = [] then rn else rad_desc rad') k \<in> set regs
                \<and> (pn, p) \<in> set (peripherals tree) \<and> p_name p = pn
                \<and> (\<exists>r. (rn, r) \<in> set (registers p))
                \<and> (distinct (map reg_name regs)
                     \<longrightarrow> (rn, Register rn (if rad_desc rad' = [] then rn else rad_desc rad')
                                (rad_addr rad' - base_address p) 32
                                (register_fields ?all fi fd k))
                             \<in> set (registers p)))" (is "Ball _ ?K")
  proof
    fix e assume "e \<in> set ri"
    moreover obtain k rad' where ke: "e = (k, rad')" by (cases e)
    ultimately have e: "(k, rad') \<in> set ri" by simp
    show "?K e" unfolding ke prod.case
    proof (intro allI impI)
    fix f pn rn
    assume h: "pn \<noteq> [] \<and> rn \<noteq> []
          \<and> (map_of p2p k = Some pn \<and> map_of p2r k = Some rn
             \<or> map_of p2p k = None \<and> distinct (map fst p2p) \<and> (f, pn) \<in> set p2p
               \<and> prefix f k
               \<and> (\<forall>f' \<in> fst ` set p2p. prefix f' k \<longrightarrow> length f' \<le> length f)
               \<and> rn = drop (length pn + 1) k)"
    from h have ne: "pn \<noteq> []" "rn \<noteq> []" by simp_all
    from h have how: "map_of p2p k = Some pn \<and> map_of p2r k = Some rn
             \<or> map_of p2p k = None \<and> distinct (map fst p2p) \<and> (f, pn) \<in> set p2p
               \<and> prefix f k
               \<and> (\<forall>f' \<in> fst ` set p2p. prefix f' k \<longrightarrow> length f' \<le> length f)
               \<and> rn = drop (length pn + 1) k" by (elim conjE)
    from kept [OF e ne how]
    show "\<exists>regs p. (pn, regs) \<in> set (fst G)
                \<and> RegisterInfo rn (rad_addr rad')
                     (if rad_desc rad' = [] then rn else rad_desc rad') k \<in> set regs
                \<and> (pn, p) \<in> set (peripherals tree) \<and> p_name p = pn
                \<and> (\<exists>r. (rn, r) \<in> set (registers p))
                \<and> (distinct (map reg_name regs)
                     \<longrightarrow> (rn, Register rn (if rad_desc rad' = [] then rn else rad_desc rad')
                                (rad_addr rad' - base_address p) 32
                                (register_fields ?all fi fd k))
                             \<in> set (registers p))" .
    qed
  qed
  have c6: "parse_header_lines ls = Inr ph \<and> ri = registers_info ph
         \<and> p2p = reg_fqn_to_periph ph \<and> p2r = reg_fqn_to_regname ph
         \<and> fi = fields_info ph \<and> fd = field_descriptions ph
        \<longrightarrow> parse_header_to_device_tree ls dn dd = Inr (snd G, tree)
            \<and> distinct (map fst p2p)
            \<and> (\<forall>entry \<in> set (fst G). distinct (map reg_name (snd entry)))"
  proof (intro impI)
    assume h: "parse_header_lines ls = Inr ph \<and> ri = registers_info ph
         \<and> p2p = reg_fqn_to_periph ph \<and> p2r = reg_fqn_to_regname ph
         \<and> fi = fields_info ph \<and> fd = field_descriptions ph"
    then have ph: "parse_header_lines ls = Inr ph" by simp
    from h have run: "parse_header_to_device_tree ls dn dd = Inr (snd G, tree)"
      by (simp add: parse_header_to_device_tree_def Let_def G T)
    from parse_header_lines_fqn_distinct [OF ph] h have dp: "distinct (map fst p2p)" by simp
    have dn: "\<forall>entry \<in> set (fst G). distinct (map reg_name (snd entry))"
    proof
      fix entry
      assume "entry \<in> set (fst G)"
      then have "(fst entry, snd entry) \<in> set (fst (group_registers_by_peripheral
          (registers_info ph) (reg_fqn_to_periph ph) (reg_fqn_to_regname ph)))"
        using h by (simp add: G)
      from groups_ok_names [OF header_groups_ok [OF ph] this]
      show "distinct (map reg_name (snd entry))" .
    qed
    from run dp dn
    show "parse_header_to_device_tree ls dn dd = Inr (snd G, tree)
            \<and> distinct (map fst p2p)
            \<and> (\<forall>entry \<in> set (fst G). distinct (map reg_name (snd entry)))"
      by (intro conjI)
  qed
  from eq have c4: "fst G
      = fst (group_registers_by_peripheral (filter (\<lambda>e. fst e \<noteq> m) ri) p2p p2r)"
    and c5: "filter (\<lambda>w. w \<noteq> warning m) (snd G)
        = snd (group_registers_by_peripheral (filter (\<lambda>e. fst e \<noteq> m) ri) p2p p2r)"
    by simp_all
  show ?thesis by (intro conjI w c1 c2 c3 c4 c5 c6)
qed

theorem C8_unattributable_register_witness:
  "map_of [(''P_R'', ''P'')] ''X_A'' = None
   \<and> \<not> prefix ''P_R'' ''X_A''
   \<and> group_registers_by_peripheral
        [(''X_A'', RegAddrDesc 0x40 ''a''), (''P_R'', RegAddrDesc 0x10 ''r''),
         (''P_R_S'', RegAddrDesc 0x20 '''')]
        [(''P_R'', ''P'')] [(''P_R'', ''R'')]
      = ([(''P'', [RegisterInfo ''R'' 0x10 ''r'' ''P_R'',
                   RegisterInfo ''R_S'' 0x20 ''R_S'' ''P_R_S''])], [warning ''X_A''])
   \<and> build_device_tree ''D'' ''DD''
        [(''P'', [RegisterInfo ''R'' 0x10 ''r'' ''P_R'',
                  RegisterInfo ''R_S'' 0x20 ''R_S'' ''P_R_S''])] [] []
      = Device ''D'' ''DD''
          [(''P'', Peripheral ''P'' 0x10 ''P Peripheral''
                     [(''R'', Register ''R'' ''r'' 0 32 []),
                      (''R_S'', Register ''R_S'' ''R_S'' 0x10 32 [])])]
   \<and> warning ''X_A'' \<in> set [warning ''X_A'']
   \<and> (\<exists>regs p. (''P'', regs) \<in> set [(''P'', [RegisterInfo ''R'' 0x10 ''r'' ''P_R'',
                                              RegisterInfo ''R_S'' 0x20 ''R_S'' ''P_R_S''])]
         \<and> RegisterInfo ''R_S'' 0x20 ''R_S'' ''P_R_S'' \<in> set regs
         \<and> (''P'', p) \<in> set (peripherals (Device ''D'' ''DD''
              [(''P'', Peripheral ''P'' 0x10 ''P Peripheral''
                         [(''R'', Register ''R'' ''r'' 0 32 []),
                          (''R_S'', Register ''R_S'' ''R_S'' 0x10 32 [])])]))
         \<and> (\<exists>r. (''R_S'', r) \<in> set (registers p)))"
proof -
  let ?ri = "[(''X_A'', RegAddrDesc 0x40 ''a''), (''P_R'', RegAddrDesc 0x10 ''r''),
         (''P_R_S'', RegAddrDesc 0x20 '''')]"
  let ?G = "([(''P'', [RegisterInfo ''R'' 0x10 ''r'' ''P_R'',
                   RegisterInfo ''R_S'' 0x20 ''R_S'' ''P_R_S''])], [warning ''X_A''])"
  let ?tree = "Device ''D'' ''DD''
          [(''P'', Peripheral ''P'' 0x10 ''P Peripheral''
                     [(''R'', Register ''R'' ''r'' 0 32 []),
                      (''R_S'', Register ''R_S'' ''R_S'' 0x10 32 [])])]"
  have h1: "map_of [(''P_R'', ''P'')] ''X_A'' = None" by simp
  have h2: "\<forall>k \<in> fst ` set [(''P_R'', ''P'')]. \<not> prefix k ''X_A''" by simp
  have h3: "(''X_A'', RegAddrDesc 0x40 ''a'') \<in> set ?ri" by simp
  have run: "group_registers_by_peripheral ?ri [(''P_R'', ''P'')] [(''P_R'', ''R'')] = ?G"
    by code_simp
  have tree: "build_device_tree ''D'' ''DD'' (fst ?G) [] [] = ?tree"
    by code_simp
  note C = C8_unattributable_register [OF h1 h2 h3 run [symmetric] tree [symmetric],
      where ls = "[]" and ph = "ParsedHeader.truncate init_state"]
  from C have w: "warning ''X_A'' \<in> set (snd ?G)" by (rule conjunct1)
  from C have k: "\<forall>(k, rad') \<in> set ?ri. \<forall>f pn rn.
          pn \<noteq> [] \<and> rn \<noteq> []
          \<and> (map_of [(''P_R'', ''P'')] k = Some pn \<and> map_of [(''P_R'', ''R'')] k = Some rn
             \<or> map_of [(''P_R'', ''P'')] k = None \<and> distinct (map fst [(''P_R'', ''P'')])
               \<and> (f, pn) \<in> set [(''P_R'', ''P'')]
               \<and> prefix f k
               \<and> (\<forall>f' \<in> fst ` set [(''P_R'', ''P'')]. prefix f' k \<longrightarrow> length f' \<le> length f)
               \<and> rn = drop (length pn + 1) k)
          \<longrightarrow> (\<exists>regs p. (pn, regs) \<in> set (fst ?G)
                \<and> RegisterInfo rn (rad_addr rad')
                     (if rad_desc rad' = [] then rn else rad_desc rad') k \<in> set regs
                \<and> (pn, p) \<in> set (peripherals ?tree) \<and> p_name p = pn
                \<and> (\<exists>r. (rn, r) \<in> set (registers p))
                \<and> (distinct (map reg_name regs)
                     \<longrightarrow> (rn, Register rn (if rad_desc rad' = [] then rn else rad_desc rad')
                                (rad_addr rad' - base_address p) 32
                                (register_fields (collect_reg_fqns (fst ?G)) [] [] k))
                             \<in> set (registers p)))"
    by (elim conjE)
  have e: "(''P_R_S'', RegAddrDesc 0x20 '''') \<in> set ?ri" by simp
  have fb: "''P'' \<noteq> [] \<and> ''R_S'' \<noteq> []
          \<and> (map_of [(''P_R'', ''P'')] ''P_R_S'' = Some ''P''
                \<and> map_of [(''P_R'', ''R'')] ''P_R_S'' = Some ''R_S''
             \<or> map_of [(''P_R'', ''P'')] ''P_R_S'' = None \<and> distinct (map fst [(''P_R'', ''P'')])
               \<and> (''P_R'', ''P'') \<in> set [(''P_R'', ''P'')]
               \<and> prefix ''P_R'' ''P_R_S''
               \<and> (\<forall>f' \<in> fst ` set [(''P_R'', ''P'')]. prefix f' ''P_R_S''
                     \<longrightarrow> length f' \<le> length ''P_R'')
               \<and> ''R_S'' = drop (length ''P'' + 1) ''P_R_S'')"
    by simp
  from k [rule_format, OF e, unfolded prod.case, rule_format, of "''P''" "''R_S''" "''P_R''", OF fb]
  have "\<exists>regs p. (''P'', regs) \<in> set (fst ?G)
         \<and> RegisterInfo ''R_S'' 0x20 ''R_S'' ''P_R_S'' \<in> set regs
         \<and> (''P'', p) \<in> set (peripherals ?tree)
         \<and> (\<exists>r. (''R_S'', r) \<in> set (registers p))"
    by (simp del: set_simps) blast
  with h1 run tree w show ?thesis by (simp del: set_simps)
qed

end
